theory Spec2Isabelle
  imports Main "HOL-Library.Word" "HOL-Library.List_Lexorder"
begin

section \<open>Bytes, errors and the struct module\<close>

text \<open>
  A Python byte string is a list of 8-bit words.  Byte strings compare as Python
  compares them: lexicographically on the unsigned byte values (the order of
  \<open>List_Lexorder\<close> over the unsigned order of words).
\<close>

type_synonym byte = "8 word"
type_synonym bytes = "byte list"

text \<open>The exceptions the modelled code can raise, as values.\<close>

datatype error =
    IllegalOffset      \<comment> \<open>\<open>Exception("illegal offset")\<close> of \<open>FileSection.seek\<close>\<close>
  | InvalidMagic       \<comment> \<open>\<open>Exception("invalid file magic")\<close>\<close>
  | UnknownBTree       \<comment> \<open>\<open>Exception("unknown b-tree")\<close>\<close>
  | StructError        \<comment> \<open>\<open>struct.error\<close>: short buffer, value out of range, wrong argument type or count\<close>
  | IndexError         \<comment> \<open>list index out of range, pop from empty list\<close>
  | AttributeError     \<comment> \<open>a missing attribute (\<open>page\<close> of a leaf entry, \<open>encode\<close> of an int)\<close>
  | NegativeSeek       \<comment> \<open>the underlying file object refuses a negative position\<close>
  | HandleOverflow     \<comment> \<open>the underlying file object refuses a position or a size that is too large\<close>

text \<open>The format characters \<open>B\<close>, \<open>H\<close>, \<open>L\<close>, \<open>Q\<close> of \<open>struct\<close>, which the code uses with the
  prefix \<open><\<close> always: little-endian, standard sizes, no padding.\<close>

datatype fmtchar = fB | fH | fL | fQ

fun calcsize1 :: "fmtchar \<Rightarrow> nat" where
  "calcsize1 fB = 1"
| "calcsize1 fH = 2"
| "calcsize1 fL = 4"
| "calcsize1 fQ = 8"

definition calcsize :: "fmtchar list \<Rightarrow> nat" where
  "calcsize fmt = sum_list (map calcsize1 fmt)"

fun le_nat :: "bytes \<Rightarrow> nat" where
  "le_nat [] = 0"
| "le_nat (b # bs) = unat b + 256 * le_nat bs"

fun unpack_fields :: "fmtchar list \<Rightarrow> bytes \<Rightarrow> nat list" where
  "unpack_fields [] bs = []"
| "unpack_fields (c # cs) bs =
     le_nat (take (calcsize1 c) bs) # unpack_fields cs (drop (calcsize1 c) bs)"

text \<open>\<open>struct.unpack_from("<" + fmt, data, ofs)\<close> with \<open>ofs \<ge> 0\<close>: it raises
  \<open>struct.error\<close> unless the buffer holds \<open>calcsize fmt\<close> bytes from \<open>ofs\<close> on.\<close>

definition unpack_from :: "fmtchar list \<Rightarrow> bytes \<Rightarrow> nat \<Rightarrow> error + nat list" where
  "unpack_from fmt data ofs =
     (if length data < ofs + calcsize fmt then Inl StructError
      else Inr (unpack_fields fmt (drop ofs data)))"

text \<open>\<open>struct.unpack("<" + fmt, data)\<close>: the buffer must have exactly the sz of the format.\<close>

definition unpack :: "fmtchar list \<Rightarrow> bytes \<Rightarrow> error + nat list" where
  "unpack fmt data =
     (if length data \<noteq> calcsize fmt then Inl StructError
      else Inr (unpack_fields fmt data))"

section \<open>File objects and \<open>FileSection\<close>\<close>

text \<open>A file object as \<open>IDBFile.__init__\<close> uses it, with a seek to 0 and a read of 256
  bytes: its bytes and its position.  A read returns what is left of the file from its
  position, at most the size asked for.\<close>

record fileobj =
  contents :: bytes
  fpos :: nat

definition fh_seek :: "fileobj \<Rightarrow> int \<Rightarrow> error + fileobj" where
  "fh_seek f pos = (if pos < 0 then Inl NegativeSeek else Inr (f\<lparr>fpos := nat pos\<rparr>))"

definition fh_read :: "fileobj \<Rightarrow> int \<Rightarrow> bytes \<times> fileobj" where
  "fh_read f sz =
     (let avail = drop (fpos f) (contents f);
          data = (if sz < 0 then avail else take (nat sz) avail)
      in (data, f\<lparr>fpos := fpos f + length data\<rparr>))"

text \<open>
  The file object under a \<open>FileSection\<close>.  It is one object, shared by reference by the
  \<open>IDBFile\<close> and by every window built over it, and each of them moves its position;
  so the methods of a window take the handle as it is at the call and return it as they
  leave it.  A handle refuses a negative position, and a position or a read size from
  some bound on (\<open>io.BytesIO\<close> from \<open>2^63\<close>, a binary file from a smaller bound of the
  file system): \<open>seek_limit\<close> and \<open>read_limit\<close> are the bounds of the handle.
\<close>

record handle = fileobj +
  seek_limit :: nat
  read_limit :: nat

definition sh_seek :: "handle \<Rightarrow> int \<Rightarrow> error + handle" where
  "sh_seek f pos =
     (if pos < 0 then Inl NegativeSeek
      else if int (seek_limit f) \<le> pos then Inl HandleOverflow
      else Inr (f\<lparr>fpos := nat pos\<rparr>))"

definition sh_read :: "handle \<Rightarrow> int \<Rightarrow> error + bytes \<times> handle" where
  "sh_read f sz =
     (if int (read_limit f) \<le> sz then Inl HandleOverflow
      else (let avail = drop (fpos f) (contents f);
                data = (if sz < 0 then avail else take (nat sz) avail)
            in Inr (data, f\<lparr>fpos := fpos f + length data\<rparr>)))"

text \<open>\<open>class FileSection\<close>.  The field \<open>end\<close> of the source is \<open>endpos\<close> here; the field
  \<open>fh\<close> is the reference to the shared handle, which the methods take as an argument.\<close>

record FileSection =
  start :: int
  endpos :: int
  curpos :: int

text \<open>The constructor sets \<open>curpos = 0\<close> and seeks the handle to \<open>start\<close>.\<close>

definition FileSection_init :: "handle \<Rightarrow> int \<Rightarrow> int \<Rightarrow> error + FileSection \<times> handle" where
  "FileSection_init f s e =
     (case sh_seek f s of
        Inl err \<Rightarrow> Inl err
      | Inr f' \<Rightarrow> Inr (\<lparr>start = s, endpos = e, curpos = 0\<rparr>, f'))"

text \<open>\<open>read\<close> does not seek the handle: it reads \<open>want\<close> bytes from wherever the handle
  is, and adds the number of bytes it got to \<open>curpos\<close>.  An exception of the handle
  leaves the window as it was.\<close>

definition FileSection_read :: "FileSection \<Rightarrow> handle \<Rightarrow> int \<Rightarrow> (error + bytes) \<times> FileSection \<times> handle" where
  "FileSection_read self f sz =
     (let want = min sz (endpos self - start self - curpos self) in
      if want \<le> 0 then (Inr [], self, f)
      else (case sh_read f want of
              Inl err \<Rightarrow> (Inl err, self, f)
            | Inr (data, f') \<Rightarrow>
                (Inr data, self\<lparr>curpos := curpos self + int (length data)\<rparr>, f')))"

definition isvalidpos :: "FileSection \<Rightarrow> int \<Rightarrow> bool" where
  "isvalidpos self offset = (0 \<le> offset \<and> offset \<le> endpos self - start self)"

text \<open>The last step of \<open>seek\<close>: \<open>self.fh.seek(self.curpos + self.start)\<close>.  The window
  keeps the \<open>curpos\<close> set before an exception of the handle, so \<open>seek\<close> returns the
  exception (if any) together with the window and the handle as they are left.\<close>

definition seek_fh :: "FileSection \<Rightarrow> handle \<Rightarrow> error option \<times> FileSection \<times> handle" where
  "seek_fh self f =
     (case sh_seek f (curpos self + start self) of
        Inl err \<Rightarrow> (Some err, self, f)
      | Inr f' \<Rightarrow> (None, self, f'))"

definition FileSection_seek :: "FileSection \<Rightarrow> handle \<Rightarrow> int \<Rightarrow> int list \<Rightarrow> error option \<times> FileSection \<times> handle" where
  "FileSection_seek self f offset args =
     (let whence = (if length args = 0 then 0 else hd args) in
      if whence = 0 then
        (if \<not> isvalidpos self offset then (Some IllegalOffset, self, f)
         else seek_fh (self\<lparr>curpos := offset\<rparr>) f)
      else if whence = 1 then
        (if \<not> isvalidpos self (curpos self + offset) then (Some IllegalOffset, self, f)
         else seek_fh (self\<lparr>curpos := curpos self + offset\<rparr>) f)
      else if whence = 2 then
        (if \<not> isvalidpos self (endpos self - start self + offset) then (Some IllegalOffset, self, f)
         else seek_fh (self\<lparr>curpos := endpos self - start self + offset\<rparr>) f)
      else seek_fh self f)"

definition FileSection_tell :: "FileSection \<Rightarrow> int" where
  "FileSection_tell self = curpos self"

text \<open>
  What happens to one window and the handle: the caller's reads, seeks and tells (an
  exception is caught by the caller, the window and the handle stay as the method left
  them), and, between them, \<open>Other g\<close>: the other users of the handle leave it as
  \<open>g\<close>.
\<close>

datatype fs_op = Read int | Seek int "int list" | Tell | Other handle

fun fs_step :: "FileSection \<times> handle \<Rightarrow> fs_op \<Rightarrow> FileSection \<times> handle" where
  "fs_step (self, f) (Read sz) = snd (FileSection_read self f sz)"
| "fs_step (self, f) (Seek offset args) = snd (FileSection_seek self f offset args)"
| "fs_step (self, f) Tell = (self, f)"
| "fs_step (self, f) (Other g) = (self, g)"

definition fs_run :: "FileSection \<times> handle \<Rightarrow> fs_op list \<Rightarrow> FileSection \<times> handle" where
  "fs_run st ops = foldl fs_step st ops"

text \<open>The position a \<open>seek\<close> asks for, for the three values of \<open>whence\<close>.\<close>

definition seek_target :: "FileSection \<Rightarrow> int \<Rightarrow> int \<Rightarrow> int" where
  "seek_target self offset whence =
     (if whence = 0 then offset
      else if whence = 1 then curpos self + offset
      else endpos self - start self + offset)"

text \<open>The bytes of the window \<open>[s, e)\<close> that a file holds.\<close>

definition window :: "bytes \<Rightarrow> int \<Rightarrow> int \<Rightarrow> bytes" where
  "window file s e = take (nat (e - s)) (drop (nat s) file)"

section \<open>The container header: \<open>IDBFile.__init__\<close>\<close>

record IDBFile =
  magic :: bytes
  offsets :: "nat list"
  checksums :: "nat list"
  fileversion :: nat

text \<open>The three magics \<open>IDA0\<close>, \<open>IDA1\<close>, \<open>IDA2\<close>.\<close>

definition magics :: "bytes list" where
  "magics = [[0x49, 0x44, 0x41, 0x30], [0x49, 0x44, 0x41, 0x31], [0x49, 0x44, 0x41, 0x32]]"

text \<open>The header of a versioned container below version 5: the offsets are
  \<open>values[0:5]\<close>, the checksums \<open>values[8:13]\<close>, and the pair for \<open>id2\<close> is read
  at offset 56 with \<open><LH\<close> for version 1 and \<open><LL\<close> otherwise.\<close>

definition header_v1to4 :: "bytes \<Rightarrow> nat list \<Rightarrow> nat \<Rightarrow> error + nat list \<times> nat list" where
  "header_v1to4 hdrdata values fv =
     (case unpack_from (if fv = 1 then [fL, fH] else [fL, fL]) hdrdata 56 of
        Inl err \<Rightarrow> Inl err
      | Inr ids \<Rightarrow> Inr (take 5 values @ [ids ! 0], take 5 (drop 8 values) @ [ids ! 1]))"

text \<open>Version 5 and later: \<open><QQLLHQQQQ5LQL\<close> at offset 6.\<close>

definition header_v5 :: "bytes \<Rightarrow> error + nat list \<times> nat list" where
  "header_v5 hdrdata =
     (case unpack_from ([fQ, fQ, fL, fL, fH, fQ, fQ, fQ, fQ] @ replicate 5 fL @ [fQ, fL]) hdrdata 6 of
        Inl err \<Rightarrow> Inl err
      | Inr values \<Rightarrow> Inr (map (\<lambda>i. values ! i) [0, 1, 5, 6, 7, 13],
                           map (\<lambda>i. values ! i) [8, 9, 10, 11, 12, 14]))"

definition IDBFile_init :: "fileobj \<Rightarrow> error + IDBFile" where
  "IDBFile_init f =
     (case fh_seek f 0 of
        Inl err \<Rightarrow> Inl err
      | Inr f0 \<Rightarrow>
         (let hdrdata = fst (fh_read f0 0x100);
              mg = take 4 hdrdata
          in if mg \<notin> set magics then Inl InvalidMagic
             else
               (case unpack_from (replicate 6 fL @ [fH] @ replicate 6 fL) hdrdata 6 of
                  Inl err \<Rightarrow> Inl err
                | Inr values \<Rightarrow>
                   if values ! 5 \<noteq> 0xaabbccdd then
                     Inr \<lparr>magic = mg, offsets = take 5 values @ [0],
                          checksums = replicate 6 0, fileversion = 0\<rparr>
                   else
                     (let fv = values ! 6 in
                      case (if fv < 5 then header_v1to4 hdrdata values fv else header_v5 hdrdata) of
                        Inl err \<Rightarrow> Inl err
                      | Inr (ofs, chk) \<Rightarrow>
                          Inr \<lparr>magic = mg, offsets = ofs, checksums = chk, fileversion = fv\<rparr>))))"

text \<open>The little-endian integer of \<open>n\<close> bytes at offset \<open>ofs\<close> of a buffer.\<close>

definition le_at :: "bytes \<Rightarrow> nat \<Rightarrow> nat \<Rightarrow> nat" where
  "le_at data ofs n = (\<Sum>i < n. unat (data ! (ofs + i)) * 256 ^ i)"

section \<open>B-tree pages\<close>

text \<open>
  An entry of a page.  An index entry (\<open>IndexEntry\<close>) has the number of its child page;
  a leaf entry (\<open>LeafEntry\<close>) has an indent and two unknown fields instead and no
  \<open>page\<close> attribute.  The key of a leaf entry is the reconstructed one.  (The field
  \<open>recofs\<close> is used while decoding only and is not kept.)
\<close>

datatype entry =
    IndexEntry (page: nat) (key: bytes) (val: bytes)
  | LeafEntry (indent: nat) (unknown1: nat) (unknown: nat) (key: bytes) (val: bytes)

record BasePage =
  preceeding :: nat
  count :: nat
  index :: "entry list"
  page_unknown :: nat
  freeptr :: nat

text \<open>The three page classes \<open>Page15\<close>, \<open>Page16\<close>, \<open>Page20\<close>.\<close>

datatype layout = Page15 | Page16 | Page20

text \<open>\<open>BaseIndexEntry.__init__\<close>: the record body at \<open>recofs\<close>, a 16-bit key length, the
  key, a 16-bit value length, the value.  The slices \<open>data[ofs:ofs+keylen]\<close> never
  raise.\<close>

definition BaseIndexEntry_init :: "bytes \<Rightarrow> nat \<Rightarrow> error + bytes \<times> bytes" where
  "BaseIndexEntry_init data recofs =
     (case unpack_from [fH] data recofs of
        Inl err \<Rightarrow> Inl err
      | Inr kl \<Rightarrow>
         (let keylen = kl ! 0;
              ofs = recofs + 2;
              k = take keylen (drop ofs data);
              ofs = ofs + keylen
          in case unpack_from [fH] data ofs of
               Inl err \<Rightarrow> Inl err
             | Inr vl \<Rightarrow>
                (let vallen = vl ! 0; ofs = ofs + 2
                 in Inr (k, take vallen (drop ofs data)))))"

text \<open>The \<open>IndexEntry\<close> classes of the three layouts: the slot is \<open><HH\<close> (v1.5) or
  \<open><LH\<close>; v1.5 and v1.6 skip one byte of the record body.\<close>

definition IndexEntry_init :: "layout \<Rightarrow> bytes \<Rightarrow> bytes \<Rightarrow> nat \<Rightarrow> error + entry" where
  "IndexEntry_init lay prevkey data ofs =
     (case unpack_from (if lay = Page15 then [fH, fH] else [fL, fH]) data ofs of
        Inl err \<Rightarrow> Inl err
      | Inr slot \<Rightarrow>
         (let pg = slot ! 0;
              recofs = (if lay = Page20 then slot ! 1 else slot ! 1 + 1)
          in case BaseIndexEntry_init data recofs of
               Inl err \<Rightarrow> Inl err
             | Inr (k, v) \<Rightarrow> Inr (IndexEntry pg k v)))"

text \<open>The slot of a leaf entry: \<open>(indent, unknown1, unknown, recofs)\<close>, read with
  \<open><BBH\<close> (v1.5), \<open><BBHH\<close> (v1.6) or \<open><HHH\<close> (v2.0); \<open>unknown1\<close> is 0 where the slot
  has no such field.\<close>

definition leaf_slot :: "layout \<Rightarrow> bytes \<Rightarrow> nat \<Rightarrow> error + nat \<times> nat \<times> nat \<times> nat" where
  "leaf_slot lay data ofs =
     (case lay of
        Page15 \<Rightarrow>
          (case unpack_from [fB, fB, fH] data ofs of
             Inl err \<Rightarrow> Inl err
           | Inr s \<Rightarrow> Inr (s ! 0, 0, s ! 1, s ! 2 + 1))
      | Page16 \<Rightarrow>
          (case unpack_from [fB, fB, fH, fH] data ofs of
             Inl err \<Rightarrow> Inl err
           | Inr s \<Rightarrow> Inr (s ! 0, s ! 1, s ! 2, s ! 3 + 1))
      | Page20 \<Rightarrow>
          (case unpack_from [fH, fH, fH] data ofs of
             Inl err \<Rightarrow> Inl err
           | Inr s \<Rightarrow> Inr (s ! 0, 0, s ! 1, s ! 2)))"

text \<open>The \<open>LeafEntry\<close> classes with \<open>BaseLeafEntry.__init__\<close>: the key is
  \<open>key[:self.indent] + self.key\<close>, for the key of the previous entry.\<close>

definition LeafEntry_init :: "layout \<Rightarrow> bytes \<Rightarrow> bytes \<Rightarrow> nat \<Rightarrow> error + entry" where
  "LeafEntry_init lay prevkey data ofs =
     (case leaf_slot lay data ofs of
        Inl err \<Rightarrow> Inl err
      | Inr (ind, u1, u, recofs) \<Rightarrow>
         (case BaseIndexEntry_init data recofs of
            Inl err \<Rightarrow> Inl err
          | Inr (k, v) \<Rightarrow> Inr (LeafEntry ind u1 u (take ind prevkey @ k) v)))"

text \<open>The loop of \<open>BasePage.__init__\<close> over \<open>range(self.count)\<close>: every entry is read
  at \<open>entsize * (1 + i)\<close> and gets the key of the entry before it.\<close>

fun read_entries :: "layout \<Rightarrow> bool \<Rightarrow> bytes \<Rightarrow> nat \<Rightarrow> bytes \<Rightarrow> nat list \<Rightarrow> error + entry list" where
  "read_entries lay isidx data entsize prevkey [] = Inr []"
| "read_entries lay isidx data entsize prevkey (i # is) =
     (case (if isidx then IndexEntry_init lay prevkey data (entsize * (1 + i))
            else LeafEntry_init lay prevkey data (entsize * (1 + i))) of
        Inl err \<Rightarrow> Inl err
      | Inr ent \<Rightarrow>
         (case read_entries lay isidx data entsize (key ent) is of
            Inl err \<Rightarrow> Inl err
          | Inr ents \<Rightarrow> Inr (ent # ents)))"

definition entsize_of :: "layout \<Rightarrow> nat" where
  "entsize_of lay = (if lay = Page15 then 4 else 6)"

definition entfmt_of :: "layout \<Rightarrow> fmtchar list" where
  "entfmt_of lay = (if lay = Page15 then [fH, fH] else [fL, fH])"

definition BasePage_init :: "layout \<Rightarrow> bytes \<Rightarrow> error + BasePage" where
  "BasePage_init lay data =
     (let entsize = entsize_of lay; entfmt = entfmt_of lay in
      case unpack_from entfmt data 0 of
        Inl err \<Rightarrow> Inl err
      | Inr hdr \<Rightarrow>
         (let prec = hdr ! 0; cnt = hdr ! 1 in
          case read_entries lay (prec \<noteq> 0) data entsize [] [0..<cnt] of
            Inl err \<Rightarrow> Inl err
          | Inr idx \<Rightarrow>
             (case unpack_from entfmt data (entsize * (1 + cnt)) of
                Inl err \<Rightarrow> Inl err
              | Inr trailer \<Rightarrow>
                 Inr \<lparr>preceeding = prec, count = cnt, index = idx,
                      page_unknown = trailer ! 0, freeptr = trailer ! 1\<rparr>)))"

definition isleaf :: "BasePage \<Rightarrow> bool" where
  "isleaf self = (preceeding self = 0)"

definition isindex :: "BasePage \<Rightarrow> bool" where
  "isindex self = (preceeding self \<noteq> 0)"

text \<open>Python's \<open>xs[i]\<close>: a negative index counts from the end, an index out of range
  raises \<open>IndexError\<close>.\<close>

definition py_nth :: "'a list \<Rightarrow> int \<Rightarrow> error + 'a" where
  "py_nth xs i =
     (if i < - int (length xs) \<or> int (length xs) \<le> i then Inl IndexError
      else if i < 0 then Inr (xs ! nat (int (length xs) + i))
      else Inr (xs ! nat i))"

definition getpage :: "BasePage \<Rightarrow> int \<Rightarrow> error + nat" where
  "getpage self ix =
     (if ix < 0 then Inr (preceeding self)
      else (case py_nth (index self) ix of
              Inl err \<Rightarrow> Inl err
            | Inr (IndexEntry p k v) \<Rightarrow> Inr p
            | Inr (LeafEntry i u1 u k v) \<Rightarrow> Inl AttributeError))"

definition getkey :: "BasePage \<Rightarrow> int \<Rightarrow> error + bytes" where
  "getkey self ix = (case py_nth (index self) ix of Inl err \<Rightarrow> Inl err | Inr ent \<Rightarrow> Inr (key ent))"

definition getval :: "BasePage \<Rightarrow> int \<Rightarrow> error + bytes" where
  "getval self ix = (case py_nth (index self) ix of Inl err \<Rightarrow> Inl err | Inr ent \<Rightarrow> Inr (val ent))"

text \<open>\<open>binary_search(a, k)\<close>: the loop on \<open>(first, last)\<close> (here \<open>lst\<close>), started at
  \<open>(0, len(a))\<close>, where \<open>mid < last \<le> len(a)\<close> keeps \<open>a[mid]\<close> in range.\<close>

function bs_loop :: "entry list \<Rightarrow> bytes \<Rightarrow> nat \<Rightarrow> nat \<Rightarrow> nat" where
  "bs_loop a k first lst =
     (if first < lst then
        (let mid = (first + lst) div 2 in
         if k < key (a ! mid) then bs_loop a k first mid
         else bs_loop a k (mid + 1) lst)
      else first)"
  by pat_completeness auto
termination
  by (relation "measure (\<lambda>(a, k, first, lst). lst - first)") auto

declare bs_loop.simps [simp del]

definition binary_search :: "entry list \<Rightarrow> bytes \<Rightarrow> int" where
  "binary_search a k = int (bs_loop a k 0 (length a)) - 1"

text \<open>The relation strings \<open>'recurse'\<close>, \<open>'eq'\<close>, \<open>'le'\<close>, \<open>'ge'\<close>, \<open>'lt'\<close>, \<open>'gt'\<close>:
  the outcome of a page search is one of \<open>recurse\<close>, \<open>gt\<close>, \<open>lt\<close>, \<open>eq\<close>, and
  \<open>BTree.find\<close> compares it with the relation asked for.\<close>

datatype rel = Recurse | Eq | Le | Ge | Lt | Gt

text \<open>\<open>BasePage.find\<close>.  The index \<open>i\<close> of the binary search is below \<open>len(self.index)\<close>.\<close>

definition page_find :: "BasePage \<Rightarrow> bytes \<Rightarrow> rel \<times> int" where
  "page_find self k =
     (let i = binary_search (index self) k in
      if i < 0 then (if isindex self then (Recurse, -1) else (Gt, 0))
      else if key (index self ! nat i) = k then (Eq, i)
      else if isindex self then (Recurse, i)
      else (Lt, i))"

section \<open>The B-tree: \<open>BTree\<close> and \<open>BTree.Cursor\<close>\<close>

text \<open>
  The tree object.  Its file handle \<open>fh\<close> is the \<open>FileSection\<close> that \<open>IDBFile.getpart\<close>
  returns for a raw section, a window \<open>[s, e)\<close> of the file.  The tree uses it in two
  ways: \<open>seek(0)\<close> followed by \<open>read(64)\<close>, and in \<open>readpage\<close> the seek to
  \<open>nr * pagesize\<close> followed by the read of \<open>pagesize\<close> bytes.  The seek is absolute and
  sets the shared handle, and the read follows it at once: on a handle that accepts the
  position and the size (page numbers are below \<open>2^32\<close>, page sizes below \<open>2^16\<close>) the
  bytes read are those of the window from the offset on, wherever the handle was before
  (lemma \<open>FileSection_seek_read\<close>).  So the tree is modelled by what determines the
  results: \<open>secdata\<close>, the bytes \<open>window file s e\<close> that the file holds of the window, and
  \<open>seclen\<close>, the length \<open>e - s\<close> of the window.
\<close>

record BTree =
  secdata :: bytes
  seclen :: nat
  version :: nat
  layout_of :: layout
  firstfree :: nat
  pagesize :: nat
  firstindex :: nat
  reccount :: nat
  pagecount :: nat

definition ascii :: "string \<Rightarrow> bytes" where
  "ascii s = map (\<lambda>c. of_nat (of_char c)) s"

definition startswith :: "bytes \<Rightarrow> bytes \<Rightarrow> bool" where
  "startswith s p = (take (length p) s = p)"

definition BTree_init :: "bytes \<Rightarrow> nat \<Rightarrow> error + BTree" where
  "BTree_init sec len =
     (let data = take 64 (take len sec);
          mk = (\<lambda>ver lay fmt.
            case unpack_from fmt data 0 of
              Inl err \<Rightarrow> Inl err
            | Inr h \<Rightarrow> Inr \<lparr>secdata = take len sec, seclen = len, version = ver,
                             layout_of = lay, firstfree = h ! 0, pagesize = h ! 1,
                             firstindex = h ! 2, reccount = h ! 3, pagecount = h ! 4\<rparr>)
      in if startswith (drop 13 data) (ascii ''B-tree v 1.5 (C) Pol 1990'')
           then mk 15 Page15 [fH, fH, fH, fL, fH]
         else if startswith (drop 19 data) (ascii ''B-tree v 1.6 (C) Pol 1990'')
           then mk 16 Page16 [fL, fH, fL, fL, fL]
         else if startswith (drop 19 data) (ascii ''B-tree v2'')
           then mk 20 Page20 [fL, fH, fL, fL, fL]
         else Inl UnknownBTree)"

text \<open>\<open>readpage\<close>: the seek to \<open>nr * pagesize\<close> raises when that lies past the end of
  the window; the read is clamped to the window and to the file, and a short page makes
  the decoder raise.\<close>

definition readpage :: "BTree \<Rightarrow> nat \<Rightarrow> error + BasePage" where
  "readpage db nr =
     (if seclen db < nr * pagesize db then Inl IllegalOffset
      else BasePage_init (layout_of db)
             (take (pagesize db) (drop (nr * pagesize db) (secdata db))))"

text \<open>
  A cursor is its stack of frames \<open>(page, ix)\<close>.  The list is kept top first: the head
  is Python's \<open>stack[-1]\<close>, \<open>append\<close> is \<open>#\<close> and \<open>pop\<close> takes the head off.
\<close>

type_synonym frame = "BasePage \<times> int"
type_synonym cursor = "frame list"

text \<open>Results: \<open>None\<close> is a loop that never ends, \<open>Some (Inl e)\<close> an exception,
  \<open>Some (Inr x)\<close> a value.\<close>

type_synonym 'a result = "(error + 'a) option"

text \<open>\<open>self.db.readpage(page.getpage(ix))\<close>.\<close>

definition readchild :: "BTree \<Rightarrow> BasePage \<Rightarrow> int \<Rightarrow> error + BasePage" where
  "readchild db pg ix = (case getpage pg ix of Inl err \<Rightarrow> Inl err | Inr nr \<Rightarrow> readpage db nr)"

text \<open>\<open>Cursor.next\<close>, from a leaf: \<open>while self.stack and ix==len(page.index)\<close>.\<close>

fun next_ascend :: "BasePage \<Rightarrow> int \<Rightarrow> cursor \<Rightarrow> BasePage \<times> int \<times> cursor" where
  "next_ascend pg ix [] = (pg, ix, [])"
| "next_ascend pg ix ((pg', ix') # st) =
     (if ix = int (length (index pg)) then next_ascend pg' (ix' + 1) st
      else (pg, ix, (pg', ix') # st))"

text \<open>\<open>Cursor.next\<close>, from a node: \<open>while page.isindex()\<close>, then the leaf is pushed
  with index 0.\<close>

partial_function (option) next_descend :: "BTree \<Rightarrow> BasePage \<Rightarrow> cursor \<Rightarrow> cursor result" where
  "next_descend db pg st =
     (if isindex pg then
        (case readchild db pg (-1) of
           Inl err \<Rightarrow> Some (Inl err)
         | Inr pg' \<Rightarrow> next_descend db pg' ((pg, -1) # st))
      else Some (Inr ((pg, 0) # st)))"

definition Cursor_next :: "BTree \<Rightarrow> cursor \<Rightarrow> cursor result" where
  "Cursor_next db stack =
     (case stack of
        [] \<Rightarrow> Some (Inl IndexError)
      | (pg, ix) # st \<Rightarrow>
         if isleaf pg then
           (case next_ascend pg (ix + 1) st of
              (pg', ix', st') \<Rightarrow>
                Some (Inr (if ix' < int (length (index pg')) then (pg', ix') # st' else st')))
         else
           (case readchild db pg ix of
              Inl err \<Rightarrow> Some (Inl err)
            | Inr pg' \<Rightarrow> next_descend db pg' ((pg, ix) # st)))"

text \<open>\<open>Cursor.prev\<close>, from a leaf: \<open>while self.stack and ix<0\<close>.\<close>

fun prev_ascend :: "BasePage \<Rightarrow> int \<Rightarrow> cursor \<Rightarrow> BasePage \<times> int \<times> cursor" where
  "prev_ascend pg ix [] = (pg, ix, [])"
| "prev_ascend pg ix ((pg', ix') # st) =
     (if ix < 0 then prev_ascend pg' ix' st
      else (pg, ix, (pg', ix') # st))"

text \<open>\<open>Cursor.prev\<close>, from a node: \<open>while page.isindex()\<close> down the last entries.\<close>

partial_function (option) prev_descend :: "BTree \<Rightarrow> BasePage \<Rightarrow> int \<Rightarrow> cursor \<Rightarrow> cursor result" where
  "prev_descend db pg ix st =
     (if isindex pg then
        (case readchild db pg ix of
           Inl err \<Rightarrow> Some (Inl err)
         | Inr pg' \<Rightarrow>
             prev_descend db pg' (int (length (index pg')) - 1)
               ((pg', int (length (index pg')) - 1) # st))
      else Some (Inr st))"

definition Cursor_prev :: "BTree \<Rightarrow> cursor \<Rightarrow> cursor result" where
  "Cursor_prev db stack =
     (case stack of
        [] \<Rightarrow> Some (Inl IndexError)
      | (pg, ix0) # st \<Rightarrow>
         (let ix = ix0 - 1 in
          if isleaf pg then
            (case prev_ascend pg ix st of
               (pg', ix', st') \<Rightarrow> Some (Inr (if ix' \<ge> 0 then (pg', ix') # st' else st')))
          else prev_descend db pg ix ((pg, ix) # st)))"

definition eof :: "cursor \<Rightarrow> bool" where
  "eof stack = (length stack = 0)"

definition Cursor_getkey :: "cursor \<Rightarrow> error + bytes" where
  "Cursor_getkey stack = (case stack of [] \<Rightarrow> Inl IndexError | (pg, ix) # st \<Rightarrow> getkey pg ix)"

definition Cursor_getval :: "cursor \<Rightarrow> error + bytes" where
  "Cursor_getval stack = (case stack of [] \<Rightarrow> Inl IndexError | (pg, ix) # st \<Rightarrow> getval pg ix)"

text \<open>\<open>BTree.find\<close>: the descent \<open>while True\<close>, which returns the outcome of the last
  page search and the stack.\<close>

partial_function (option) find_descend :: "BTree \<Rightarrow> bytes \<Rightarrow> BasePage \<Rightarrow> cursor \<Rightarrow> (rel \<times> cursor) result" where
  "find_descend db k pg stack =
     (case page_find pg k of
        (act, ix) \<Rightarrow>
          if act \<noteq> Recurse then Some (Inr (act, (pg, ix) # stack))
          else (case readchild db pg ix of
                  Inl err \<Rightarrow> Some (Inl err)
                | Inr pg' \<Rightarrow> find_descend db k pg' ((pg, ix) # stack)))"

text \<open>The mapping of the outcome to the relation asked for; \<open>None\<close> of Python is the
  inner \<open>None\<close>.\<close>

definition find_finish :: "BTree \<Rightarrow> rel \<Rightarrow> rel \<Rightarrow> cursor \<Rightarrow> cursor option result" where
  "find_finish db r act cursor =
     (let moved = (\<lambda>res. case res of None \<Rightarrow> None | Some (Inl err) \<Rightarrow> Some (Inl err)
                                | Some (Inr c) \<Rightarrow> Some (Inr (Some c)))
      in if act = r then Some (Inr (Some cursor))
         else if r = Eq \<and> act \<noteq> Eq then Some (Inr None)
         else if (r = Ge \<or> r = Le) \<and> act = Eq then Some (Inr (Some cursor))
         else if (r = Gt \<or> r = Ge) \<and> act = Lt then moved (Cursor_next db cursor)
         else if r = Gt \<and> act = Eq then moved (Cursor_next db cursor)
         else if (r = Lt \<or> r = Le) \<and> act = Gt then moved (Cursor_prev db cursor)
         else if r = Lt \<and> act = Eq then moved (Cursor_prev db cursor)
         else Some (Inr (Some cursor)))"

definition BTree_find :: "BTree \<Rightarrow> rel \<Rightarrow> bytes \<Rightarrow> cursor option result" where
  "BTree_find db r k =
     (case readpage db (firstindex db) of
        Inl err \<Rightarrow> Some (Inl err)
      | Inr pg \<Rightarrow>
         (case find_descend db k pg [] of
            None \<Rightarrow> None
          | Some (Inl err) \<Rightarrow> Some (Inl err)
          | Some (Inr (act, stack)) \<Rightarrow> find_finish db r act stack))"

section \<open>The typed overlay: \<open>ID0File\<close>\<close>

text \<open>
  The arguments of the variadic methods: an integer, a text string (given by its UTF-8
  bytes, which is what \<open>encode('utf-8')\<close> returns) or a cursor.
\<close>

datatype pyarg = PInt int | PStr bytes | PCursor cursor

record ID0File =
  btree :: BTree
  wordsize :: nat
  fmt :: fmtchar
  nodebase :: nat

definition ID0File_init :: "bytes \<Rightarrow> bytes \<Rightarrow> nat \<Rightarrow> error + ID0File" where
  "ID0File_init idb_magic sec len =
     (case BTree_init sec len of
        Inl err \<Rightarrow> Inl err
      | Inr bt \<Rightarrow>
         if idb_magic = ascii ''IDA2''
         then Inr \<lparr>btree = bt, wordsize = 8, fmt = fQ, nodebase = 0xFF00000000000000\<rparr>
         else Inr \<lparr>btree = bt, wordsize = 4, fmt = fL, nodebase = 0xFF000000\<rparr>)"

text \<open>\<open>struct.pack\<close> with the prefix \<open>></\<close>: an integer of \<open>w\<close> bytes, big-endian.  The
  unsigned formats \<open>B\<close>, \<open>L\<close>, \<open>Q\<close> and the signed ones \<open>l\<close>, \<open>q\<close> raise for an
  argument that is not an integer or is out of range; \<open>s\<close> takes one byte of a byte
  string, a zero byte if the string is empty.\<close>

fun le_pack :: "nat \<Rightarrow> nat \<Rightarrow> bytes" where
  "le_pack 0 v = []"
| "le_pack (Suc w) v = of_nat (v mod 256) # le_pack w (v div 256)"

definition be_pack :: "nat \<Rightarrow> nat \<Rightarrow> bytes" where
  "be_pack w v = rev (le_pack w v)"

definition pack_unsigned :: "nat \<Rightarrow> pyarg \<Rightarrow> error + bytes" where
  "pack_unsigned w a =
     (case a of
        PInt v \<Rightarrow> if 0 \<le> v \<and> v < 2 ^ (8 * w) then Inr (be_pack w (nat v)) else Inl StructError
      | PStr s \<Rightarrow> Inl StructError
      | PCursor c \<Rightarrow> Inl StructError)"

definition pack_signed :: "nat \<Rightarrow> pyarg \<Rightarrow> error + bytes" where
  "pack_signed w a =
     (case a of
        PInt v \<Rightarrow> if - (2 ^ (8 * w - 1)) \<le> v \<and> v < 2 ^ (8 * w - 1)
                  then Inr (be_pack w (nat (v mod 2 ^ (8 * w)))) else Inl StructError
      | PStr s \<Rightarrow> Inl StructError
      | PCursor c \<Rightarrow> Inl StructError)"

definition pack_s :: "bytes \<Rightarrow> bytes" where
  "pack_s s = (case s of [] \<Rightarrow> [0] | b # bs \<Rightarrow> [b])"

text \<open>\<open>makekey\<close>: the second argument is encoded first (an argument without \<open>encode\<close>
  raises), then \<open>struct.pack(self.keyfmt[:2+len(args)], 0x2e, *args)\<close> with
  \<open>keyfmt = ">B" + fmt + "s" + fmt.lower()\<close>; more than three arguments do not fit the
  format.  The key is \<open>0x2e\<close>, the first argument as a big-endian word, one byte of the
  second, the third as a signed big-endian word.\<close>

definition makekey :: "ID0File \<Rightarrow> pyarg list \<Rightarrow> error + bytes" where
  "makekey self args =
     (case args of
        [] \<Rightarrow> Inr [0x2e]
      | [a] \<Rightarrow>
         (case pack_unsigned (wordsize self) a of
            Inl err \<Rightarrow> Inl err | Inr x \<Rightarrow> Inr (0x2e # x))
      | a # b # cs \<Rightarrow>
         (case b of
            PInt v \<Rightarrow> Inl AttributeError
          | PCursor c \<Rightarrow> Inl AttributeError
          | PStr s \<Rightarrow>
             (case cs of
                [] \<Rightarrow>
                 (case pack_unsigned (wordsize self) a of
                    Inl err \<Rightarrow> Inl err | Inr x \<Rightarrow> Inr (0x2e # x @ pack_s s))
              | [c] \<Rightarrow>
                 (case pack_unsigned (wordsize self) a of
                    Inl err \<Rightarrow> Inl err
                  | Inr x \<Rightarrow>
                     (case pack_signed (wordsize self) c of
                        Inl err \<Rightarrow> Inl err | Inr y \<Rightarrow> Inr (0x2e # x @ pack_s s @ y)))
              | c # d # ds \<Rightarrow> Inl StructError)))"

text \<open>\<open>bytes\<close>: the value at a given cursor, or of the record found with \<open>'eq'\<close> for
  the key made of the arguments; Python's \<open>None\<close> without such a record.\<close>

definition value_at :: "cursor \<Rightarrow> bytes option result" where
  "value_at cur = (case Cursor_getval cur of Inl err \<Rightarrow> Some (Inl err) | Inr v \<Rightarrow> Some (Inr (Some v)))"

definition ID0File_bytes :: "ID0File \<Rightarrow> pyarg list \<Rightarrow> bytes option result" where
  "ID0File_bytes self args =
     (case args of
        [PCursor cur] \<Rightarrow> value_at cur
      | _ \<Rightarrow>
         (case makekey self args of
            Inl err \<Rightarrow> Some (Inl err)
          | Inr k \<Rightarrow>
             (case BTree_find (btree self) Eq k of
                None \<Rightarrow> None
              | Some (Inl err) \<Rightarrow> Some (Inl err)
              | Some (Inr None) \<Rightarrow> Some (Inr None)
              | Some (Inr (Some cur)) \<Rightarrow> value_at cur)))"

text \<open>\<open>int\<close>: for a value of 1, 2, 4 or 8 bytes its little-endian integer; for any other
  length the method prints a message and returns nothing, which is \<open>None\<close>.\<close>

definition ID0File_int :: "ID0File \<Rightarrow> pyarg list \<Rightarrow> nat option result" where
  "ID0File_int self args =
     (case ID0File_bytes self args of
        None \<Rightarrow> None
      | Some (Inl err) \<Rightarrow> Some (Inl err)
      | Some (Inr None) \<Rightarrow> Some (Inr None)
      | Some (Inr (Some data)) \<Rightarrow>
         if length data = 1 then Some (Inr (Some (le_nat data)))
         else if length data = 2 then Some (Inr (Some (le_nat data)))
         else if length data = 4 then Some (Inr (Some (le_nat data)))
         else if length data = 8 then Some (Inr (Some (le_nat data)))
         else Some (Inr None))"

text \<open>\<open>nodeByName\<close>: the record with the key \<open>b'N' + name.encode('utf-8')\<close>, its value
  unpacked with \<open>'<' + self.fmt\<close>.\<close>

definition nodeByName :: "ID0File \<Rightarrow> bytes \<Rightarrow> nat option result" where
  "nodeByName self name =
     (case BTree_find (btree self) Eq (0x4e # name) of
        None \<Rightarrow> None
      | Some (Inl err) \<Rightarrow> Some (Inl err)
      | Some (Inr None) \<Rightarrow> Some (Inr None)
      | Some (Inr (Some cur)) \<Rightarrow>
         (case Cursor_getval cur of
            Inl err \<Rightarrow> Some (Inl err)
          | Inr v \<Rightarrow>
             (case unpack [fmt self] v of
                Inl err \<Rightarrow> Some (Inl err)
              | Inr xs \<Rightarrow> Some (Inr (Some (xs ! 0))))))"

text \<open>\<open>nextkey\<close>: \<open>struct.unpack_from("B", key, -1)\<close> reads the last byte and raises on
  an empty key; \<open>struct.pack("B", v + 1)\<close> raises for 256.\<close>

definition nextkey :: "bytes \<Rightarrow> error + bytes" where
  "nextkey k =
     (if k = [] then Inl StructError
      else if unat (last k) + 1 > 255 then Inl StructError
      else Inr (butlast k @ [of_nat (unat (last k) + 1)]))"

text \<open>The loop of \<open>blob\<close>: \<open>while cur.getkey() < endkey\<close>.\<close>

partial_function (option) blob_loop :: "BTree \<Rightarrow> bytes \<Rightarrow> cursor \<Rightarrow> bytes \<Rightarrow> bytes result" where
  "blob_loop db endkey cur data =
     (case Cursor_getkey cur of
        Inl err \<Rightarrow> Some (Inl err)
      | Inr k \<Rightarrow>
         if k < endkey then
           (case Cursor_getval cur of
              Inl err \<Rightarrow> Some (Inl err)
            | Inr v \<Rightarrow>
               (case Cursor_next db cur of
                  None \<Rightarrow> None
                | Some (Inl err) \<Rightarrow> Some (Inl err)
                | Some (Inr cur') \<Rightarrow> blob_loop db endkey cur' (data @ v)))
         else Some (Inr data))"

definition blob :: "ID0File \<Rightarrow> pyarg list \<Rightarrow> bytes result" where
  "blob self args =
     (case makekey self args of
        Inl err \<Rightarrow> Some (Inl err)
      | Inr startkey \<Rightarrow>
         (case nextkey startkey of
            Inl err \<Rightarrow> Some (Inl err)
          | Inr endkey \<Rightarrow>
             (case BTree_find (btree self) Ge startkey of
                None \<Rightarrow> None
              | Some (Inl err) \<Rightarrow> Some (Inl err)
              | Some (Inr None) \<Rightarrow> Some (Inl AttributeError)
              | Some (Inr (Some cur)) \<Rightarrow> blob_loop (btree self) endkey cur [])))"

section \<open>A full scan\<close>

text \<open>
  The loop of a caller that visits the records from a cursor on: while the cursor is
  not at \<open>eof\<close>, take \<open>getkey()\<close> and \<open>getval()\<close> and move the cursor with the given
  method (\<open>next\<close> or \<open>prev\<close>).  \<open>full_scan\<close> starts it at \<open>find('ge', b'')\<close>.
\<close>

partial_function (option) scan :: "(cursor \<Rightarrow> cursor result) \<Rightarrow> cursor \<Rightarrow> (bytes \<times> bytes) list
    \<Rightarrow> (bytes \<times> bytes) list result" where
  "scan move cur acc =
     (if eof cur then Some (Inr acc)
      else (case Cursor_getkey cur of
              Inl err \<Rightarrow> Some (Inl err)
            | Inr k \<Rightarrow>
               (case Cursor_getval cur of
                  Inl err \<Rightarrow> Some (Inl err)
                | Inr v \<Rightarrow>
                   (case move cur of
                      None \<Rightarrow> None
                    | Some (Inl err) \<Rightarrow> Some (Inl err)
                    | Some (Inr cur') \<Rightarrow> scan move cur' (acc @ [(k, v)])))))"

definition full_scan :: "BTree \<Rightarrow> (bytes \<times> bytes) list result" where
  "full_scan db =
     (case BTree_find db Ge [] of
        None \<Rightarrow> None
      | Some (Inl err) \<Rightarrow> Some (Inl err)
      | Some (Inr None) \<Rightarrow> Some (Inl AttributeError)
      | Some (Inr (Some cur)) \<Rightarrow> scan (Cursor_next db) cur [])"

section \<open>Well-formed trees and the order of their records\<close>

text \<open>
  The notions the properties of the tree are stated with.  A page is well-formed to
  depth \<open>h\<close> when the pages below it can be read down to leaves within \<open>h\<close> levels and
  no leaf is empty.  The positions of a page are the cursors (stacks) of the records
  stored in the page and below it, in the order of the tree: for an index page the
  positions below the preceding page, then each entry followed by the positions below
  the page of the entry.  \<open>st\<close> is the stack of the frames above the page.
\<close>

definition child_ok :: "(BasePage \<Rightarrow> bool) \<Rightarrow> BTree \<Rightarrow> BasePage \<Rightarrow> int \<Rightarrow> bool" where
  "child_ok P db pg ix = (case readchild db pg ix of Inl err \<Rightarrow> False | Inr c \<Rightarrow> P c)"

fun wf_page :: "BTree \<Rightarrow> nat \<Rightarrow> BasePage \<Rightarrow> bool" where
  "wf_page db 0 pg = (isleaf pg \<and> index pg \<noteq> [])"
| "wf_page db (Suc h) pg =
     (if isleaf pg then index pg \<noteq> []
      else child_ok (wf_page db h) db pg (-1)
         \<and> list_all (\<lambda>i. child_ok (wf_page db h) db pg (int i)) [0..<length (index pg)])"

definition wf_tree :: "BTree \<Rightarrow> nat \<Rightarrow> bool" where
  "wf_tree db h = (case readpage db (firstindex db) of Inl err \<Rightarrow> False | Inr pg \<Rightarrow> wf_page db h pg)"

definition leaf_positions :: "BasePage \<Rightarrow> cursor \<Rightarrow> cursor list" where
  "leaf_positions pg st = map (\<lambda>i. (pg, int i) # st) [0..<length (index pg)]"

definition below :: "(BasePage \<Rightarrow> cursor \<Rightarrow> cursor list) \<Rightarrow> BTree \<Rightarrow> BasePage \<Rightarrow> cursor \<Rightarrow> int \<Rightarrow> cursor list" where
  "below f db pg st ix =
     (case readchild db pg ix of Inl err \<Rightarrow> [] | Inr c \<Rightarrow> f c ((pg, ix) # st))"

fun positions :: "BTree \<Rightarrow> nat \<Rightarrow> BasePage \<Rightarrow> cursor \<Rightarrow> cursor list" where
  "positions db 0 pg st = (if isleaf pg then leaf_positions pg st else [])"
| "positions db (Suc h) pg st =
     (if isleaf pg then leaf_positions pg st
      else below (positions db h) db pg st (-1)
         @ concat (map (\<lambda>i. ((pg, int i) # st) # below (positions db h) db pg st (int i))
                       [0..<length (index pg)]))"

text \<open>The record a cursor is positioned at: key and value of the entry of its top frame.\<close>

definition pos_entry :: "cursor \<Rightarrow> entry" where
  "pos_entry c = (case c of (pg, ix) # st \<Rightarrow> index pg ! nat ix)"

definition pos_key :: "cursor \<Rightarrow> bytes" where
  "pos_key c = key (pos_entry c)"

definition pos_val :: "cursor \<Rightarrow> bytes" where
  "pos_val c = val (pos_entry c)"

text \<open>The cursors of all records of the tree in the tree's order, and the records.\<close>

definition tree_positions :: "BTree \<Rightarrow> nat \<Rightarrow> cursor list" where
  "tree_positions db h =
     (case readpage db (firstindex db) of Inl err \<Rightarrow> [] | Inr pg \<Rightarrow> positions db h pg [])"

definition tree_records :: "BTree \<Rightarrow> nat \<Rightarrow> (bytes \<times> bytes) list" where
  "tree_records db h = map (\<lambda>c. (pos_key c, pos_val c)) (tree_positions db h)"

definition tree_keys :: "BTree \<Rightarrow> nat \<Rightarrow> bytes list" where
  "tree_keys db h = map pos_key (tree_positions db h)"

text \<open>The keys stored in a page and below it.\<close>

definition subtree_keys :: "BTree \<Rightarrow> nat \<Rightarrow> BasePage \<Rightarrow> bytes list" where
  "subtree_keys db h pg = map pos_key (positions db h pg [])"

text \<open>A search tree: the keys ascend strictly in the tree's order.\<close>

definition search_tree :: "BTree \<Rightarrow> nat \<Rightarrow> bool" where
  "search_tree db h = (wf_tree db h \<and> sorted_wrt (<) (tree_keys db h))"

text \<open>A list of cursors is a chain of a move when the move takes each cursor to the
  one after it and the last one to \<open>e\<close>.\<close>

fun hd_or :: "'a list \<Rightarrow> 'a \<Rightarrow> 'a" where
  "hd_or [] e = e"
| "hd_or (x # xs) e = x"

fun chain :: "(cursor \<Rightarrow> cursor result) \<Rightarrow> cursor list \<Rightarrow> cursor \<Rightarrow> bool" where
  "chain f [] e = True"
| "chain f (c # cs) e = (f c = Some (Inr (hd_or cs e)) \<and> chain f cs e)"

text \<open>Where \<open>Cursor.next\<close> goes after the last record below a page whose stack is
  \<open>st\<close>, and where \<open>Cursor.prev\<close> goes before the first one.\<close>

fun next_exit :: "cursor \<Rightarrow> cursor" where
  "next_exit [] = []"
| "next_exit ((pg, ix) # st) =
     (if ix + 1 < int (length (index pg)) then (pg, ix + 1) # st else next_exit st)"

fun prev_exit :: "cursor \<Rightarrow> cursor" where
  "prev_exit [] = []"
| "prev_exit ((pg, ix) # st) = (if ix \<ge> 0 then (pg, ix) # st else prev_exit st)"

text \<open>The frames of a stack point at an entry of their page or at the preceding page.\<close>

definition valid_stack :: "cursor \<Rightarrow> bool" where
  "valid_stack st = list_all (\<lambda>(pg, ix). ix < int (length (index pg))) st"

text \<open>The outcome \<open>act\<close> of a descent for the key \<open>k\<close> and its cursor \<open>s\<close>, among the
  positions \<open>P\<close>: every record before \<open>s\<close> has a smaller key, every record after it a
  greater one, and the key at \<open>s\<close> compares with \<open>k\<close> as \<open>act\<close> says.\<close>

definition found_at :: "bytes \<Rightarrow> cursor list \<Rightarrow> rel \<Rightarrow> cursor \<Rightarrow> bool" where
  "found_at k P act s =
     (\<exists>A B. P = A @ s # B
        \<and> list_all (\<lambda>a. pos_key a < k) A \<and> list_all (\<lambda>b. k < pos_key b) B
        \<and> ((act = Eq \<and> pos_key s = k) \<or> (act = Lt \<and> pos_key s < k)
            \<or> (act = Gt \<and> k < pos_key s)))"

text \<open>
  What \<open>find\<close> is to return, over the cursors \<open>P\<close> of the records in ascending order
  of their keys: for \<open>eq\<close> the record with the key or Python's \<open>None\<close>; for \<open>ge\<close> and
  \<open>gt\<close> the first record whose key is at least, or greater than, the key; for \<open>le\<close> and
  \<open>lt\<close> the last record whose key is at most, or less than, the key; the cursor at
  \<open>eof\<close> (the empty stack) where there is no such record.
\<close>

definition find_spec :: "rel \<Rightarrow> bytes \<Rightarrow> cursor list \<Rightarrow> cursor option" where
  "find_spec r k P =
     (case r of
        Eq \<Rightarrow> List.find (\<lambda>c. pos_key c = k) P
      | Ge \<Rightarrow> Some (hd_or (filter (\<lambda>c. k \<le> pos_key c) P) [])
      | Gt \<Rightarrow> Some (hd_or (filter (\<lambda>c. k < pos_key c) P) [])
      | Le \<Rightarrow> Some (hd_or (rev (filter (\<lambda>c. pos_key c \<le> k) P)) [])
      | Lt \<Rightarrow> Some (hd_or (rev (filter (\<lambda>c. pos_key c < k) P)) [])
      | Recurse \<Rightarrow> None)"

text \<open>The pages of a subtree, each with the depth that is left below it.\<close>

fun subpages :: "BTree \<Rightarrow> nat \<Rightarrow> BasePage \<Rightarrow> (nat \<times> BasePage) list" where
  "subpages db 0 pg = [(0, pg)]"
| "subpages db (Suc h) pg =
     (Suc h, pg) #
     (if isleaf pg then []
      else concat (map (\<lambda>ix. case readchild db pg ix of Inl err \<Rightarrow> [] | Inr c \<Rightarrow> subpages db h c)
                       (-1 # map int [0..<length (index pg)])))"

text \<open>The record of a cursor, and the records with keys in a half-open interval.\<close>

definition pos_record :: "cursor \<Rightarrow> bytes \<times> bytes" where
  "pos_record c = (pos_key c, pos_val c)"

definition records_between :: "bytes \<Rightarrow> bytes \<Rightarrow> (bytes \<times> bytes) list \<Rightarrow> (bytes \<times> bytes) list" where
  "records_between lo hi recs = filter (\<lambda>(k, v). lo \<le> k \<and> k < hi) recs"

section \<open>Window safety of \<open>FileSection\<close>\<close>

text \<open>The invariant of a window \<open>[s, e)\<close>: its bounds are fixed and its position is
  within \<open>[0, e - s]\<close>.  It says nothing about the handle.\<close>

definition fs_inv :: "int \<Rightarrow> int \<Rightarrow> FileSection \<Rightarrow> bool" where
  "fs_inv s e W = (start W = s \<and> endpos W = e \<and> 0 \<le> curpos W \<and> curpos W \<le> e - s)"

lemma fs_inv_init:
  "FileSection_init f s e = Inr (W, f') \<Longrightarrow> s \<le> e \<Longrightarrow> fs_inv s e W"
  by (auto simp: FileSection_init_def fs_inv_def split: sum.splits)

lemma sh_read_length:
  "sh_read f n = Inr (data, f') \<Longrightarrow> 0 < n \<Longrightarrow> int (length data) \<le> n"
  by (auto simp: sh_read_def Let_def split: if_splits)

lemma FileSection_read_cases:
  assumes "fs_inv s e W" "FileSection_read W f sz = (res, W', f')"
  shows "fs_inv s e W'
    \<and> (case res of
          Inl err \<Rightarrow> W' = W \<and> f' = f
        | Inr data \<Rightarrow> int (length data) \<le> max 0 (min sz (e - s - curpos W))
                      \<and> curpos W' = curpos W + int (length data))"
proof -
  from assms(1) have *: "start W = s" "endpos W = e" "0 \<le> curpos W" "curpos W \<le> e - s"
    by (simp_all add: fs_inv_def)
  let ?want = "min sz (e - s - curpos W)"
  show ?thesis
  proof (cases "?want \<le> 0")
    case True
    then have "res = Inr []" "W' = W" "f' = f"
      using assms(2) * by (simp_all add: FileSection_read_def)
    then show ?thesis using assms(1) by simp
  next
    case False
    show ?thesis
    proof (cases "sh_read f ?want")
      case (Inl err)
      then have "res = Inl err" "W' = W" "f' = f"
        using assms(2) * False by (simp_all add: FileSection_read_def)
      then show ?thesis using assms(1) by simp
    next
      case (Inr r)
      obtain data g where r: "r = (data, g)" by (cases r)
      have "0 < ?want" using False by linarith
      with Inr r have len: "int (length data) \<le> ?want" by (intro sh_read_length[of f ?want data g]) simp_all
      have "res = Inr data" "W' = W\<lparr>curpos := curpos W + int (length data)\<rparr>"
        using assms(2) * False Inr r by (simp_all add: FileSection_read_def)
      then show ?thesis using * len by (simp add: fs_inv_def)
    qed
  qed
qed

lemma fs_inv_read:
  "fs_inv s e W \<Longrightarrow> fs_inv s e (fst (snd (FileSection_read W f sz)))"
  using FileSection_read_cases[of s e W f sz] by (cases "FileSection_read W f sz") simp

lemma seek_fh_window: "fst (snd (seek_fh W f)) = W"
  by (simp add: seek_fh_def split: sum.splits)

lemma fs_inv_seek:
  assumes "fs_inv s e W"
  shows "fs_inv s e (fst (snd (FileSection_seek W f offset args)))"
  using assms
  by (simp add: FileSection_seek_def Let_def seek_fh_window) (simp add: fs_inv_def isvalidpos_def)

lemma fs_inv_step: "fs_inv s e (fst st) \<Longrightarrow> fs_inv s e (fst (fs_step st x))"
  by (cases st; cases x) (simp_all add: fs_inv_read fs_inv_seek)

lemma fs_inv_run: "fs_inv s e (fst st) \<Longrightarrow> fs_inv s e (fst (fs_run st ops))"
  unfolding fs_run_def by (induction ops arbitrary: st) (simp_all add: fs_inv_step)

lemma fs_seek_outside:
  assumes "whence = 0 \<or> whence = 1 \<or> whence = 2"
    and "\<not> (0 \<le> seek_target W offset whence \<and> seek_target W offset whence \<le> endpos W - start W)"
  shows "FileSection_seek W f offset [whence] = (Some IllegalOffset, W, f)"
  using assms by (auto simp: FileSection_seek_def seek_target_def isvalidpos_def)

text \<open>
  Claim C7.  For a window \<open>[s, e)\<close> over a shared handle and any sequence of reads and
  seeks on it, with the other users of the handle moving it in between, \<open>tell()\<close>
  stays within \<open>[0, e - s]\<close>.  In the state reached, and with the handle \<open>g\<close> in any
  state: a read leaves \<open>tell()\<close> within \<open>[0, e - s]\<close>; it returns at most \<open>sz\<close> bytes and
  at most the \<open>e - s - tell()\<close> bytes left of the window, nothing when it is at the
  window's end, and advances \<open>tell()\<close> by what it returned, or it passes an exception of
  the handle on and leaves the window as it was; and a seek whose target lies outside
  \<open>[0, e - s]\<close> raises the "illegal offset" exception and leaves the window and the
  handle unchanged, for whence 0 (set, also the default), 1 (cur) and 2 (end).  (Which
  bytes a read returns depends on where the shared handle is.)
\<close>

theorem FileSection_window_safety:
  assumes "FileSection_init f0 s e = Inr (W0, f1)" and "s \<le> e"
  shows "0 \<le> FileSection_tell (fst (fs_run (W0, f1) ops))
    \<and> FileSection_tell (fst (fs_run (W0, f1) ops)) \<le> e - s
    \<and> (case FileSection_read (fst (fs_run (W0, f1) ops)) g sz of
         (res, W', g') \<Rightarrow>
            0 \<le> FileSection_tell W' \<and> FileSection_tell W' \<le> e - s
          \<and> (case res of
                Inl err \<Rightarrow> W' = fst (fs_run (W0, f1) ops)
              | Inr data \<Rightarrow>
                  int (length data) \<le> max 0 (min sz (e - s - FileSection_tell (fst (fs_run (W0, f1) ops))))
                \<and> FileSection_tell W' = FileSection_tell (fst (fs_run (W0, f1) ops)) + int (length data)))
    \<and> ((whence = 0 \<or> whence = 1 \<or> whence = 2)
         \<and> \<not> (0 \<le> seek_target (fst (fs_run (W0, f1) ops)) offset whence
                \<and> seek_target (fst (fs_run (W0, f1) ops)) offset whence \<le> e - s)
       \<longrightarrow> FileSection_seek (fst (fs_run (W0, f1) ops)) g offset [whence]
             = (Some IllegalOffset, fst (fs_run (W0, f1) ops), g))
    \<and> (\<not> (0 \<le> offset \<and> offset \<le> e - s)
       \<longrightarrow> FileSection_seek (fst (fs_run (W0, f1) ops)) g offset []
             = (Some IllegalOffset, fst (fs_run (W0, f1) ops), g))"
proof -
  let ?W = "fst (fs_run (W0, f1) ops)"
  have "fs_inv s e (fst (W0, f1))" using fs_inv_init[OF assms] by simp
  then have inv: "fs_inv s e ?W" by (rule fs_inv_run)
  then have se: "start ?W = s" "endpos ?W = e" and cp: "0 \<le> curpos ?W" "curpos ?W \<le> e - s"
    by (simp_all add: fs_inv_def)
  obtain res W' g' where rd: "FileSection_read ?W g sz = (res, W', g')"
    by (cases "FileSection_read ?W g sz")
  note rc = FileSection_read_cases[OF inv rd]
  from rc have inv': "0 \<le> curpos W'" "curpos W' \<le> e - s" by (simp_all add: fs_inv_def)
  have rres: "(case res of
                Inl err \<Rightarrow> W' = ?W
              | Inr data \<Rightarrow> int (length data) \<le> max 0 (min sz (e - s - curpos ?W))
                          \<and> curpos W' = curpos ?W + int (length data))"
    using rc by (cases res) simp_all
  have sk: "FileSection_seek ?W g offset [whence] = (Some IllegalOffset, ?W, g)"
    if "whence = 0 \<or> whence = 1 \<or> whence = 2"
      "\<not> (0 \<le> seek_target ?W offset whence \<and> seek_target ?W offset whence \<le> e - s)"
    using that fs_seek_outside[of whence ?W offset g] se by simp
  have sk0: "FileSection_seek ?W g offset [] = (Some IllegalOffset, ?W, g)"
    if "\<not> (0 \<le> offset \<and> offset \<le> e - s)"
    using that se by (simp add: FileSection_seek_def isvalidpos_def)
  show ?thesis
    unfolding rd FileSection_tell_def using cp inv' rres sk sk0 by simp
qed

text \<open>The scenario of the unit test \<open>TestFileSection\<close>: the source
  \<open>"0123456789abcdef"\<close>, the window \<open>[3, 11)\<close>, and the test's reads and seeks; then
  \<open>tell() = 8\<close>, a read returns nothing, and \<open>seek(9)\<close> raises.  With the handle moved
  to 12 by another window, as after \<open>FileSection(fh, 12, 16)\<close>, a \<open>read(3)\<close> at
  \<open>tell() = 0\<close> returns the three bytes \<open>"cde"\<close> from there.\<close>

definition test_file :: handle where
  "test_file = \<lparr>contents = [0x30, 0x31, 0x32, 0x33, 0x34, 0x35, 0x36, 0x37, 0x38, 0x39,
                            0x61, 0x62, 0x63, 0x64, 0x65, 0x66], fpos = 0,
                seek_limit = 2 ^ 63, read_limit = 2 ^ 63\<rparr>"

definition test_ops :: "fs_op list" where
  "test_ops = [Read 3, Read 8, Read 8, Seek (-1) [2], Read 8, Seek 3 [], Read 2,
               Seek (-2) [1], Read 2, Seek 2 [1], Read 2, Seek 8 []]"

definition test_window :: FileSection where
  "test_window = \<lparr>start = 3, endpos = 11, curpos = 0\<rparr>"

lemma test_window_init:
  "FileSection_init test_file 3 11 = Inr (test_window, test_file\<lparr>fpos := 3\<rparr>)"
  by (simp add: FileSection_init_def sh_seek_def test_file_def test_window_def)

lemma test_window_run:
  "fs_run (test_window, test_file\<lparr>fpos := 3\<rparr>) test_ops
     = (test_window\<lparr>curpos := 8\<rparr>, test_file\<lparr>fpos := 11\<rparr>)"
  by (simp add: fs_run_def test_ops_def test_window_def test_file_def FileSection_read_def
      FileSection_seek_def seek_fh_def sh_seek_def sh_read_def isvalidpos_def Let_def)

lemma test_window_moved:
  "FileSection_read test_window (test_file\<lparr>fpos := 12\<rparr>) 3
     = (Inr [0x63, 0x64, 0x65], test_window\<lparr>curpos := 3\<rparr>, test_file\<lparr>fpos := 15\<rparr>)"
  by (simp add: test_window_def test_file_def FileSection_read_def sh_read_def Let_def)

theorem FileSection_window_safety_witness:
  "FileSection_init test_file 3 11 = Inr (test_window, test_file\<lparr>fpos := 3\<rparr>)
   \<and> FileSection_tell (fst (fs_run (test_window, test_file\<lparr>fpos := 3\<rparr>) test_ops)) = 8
   \<and> fst (FileSection_read (fst (fs_run (test_window, test_file\<lparr>fpos := 3\<rparr>) test_ops))
            (test_file\<lparr>fpos := 11\<rparr>) 1) = Inr []
   \<and> FileSection_seek (fst (fs_run (test_window, test_file\<lparr>fpos := 3\<rparr>) test_ops))
        (test_file\<lparr>fpos := 11\<rparr>) 9 [0]
       = (Some IllegalOffset, fst (fs_run (test_window, test_file\<lparr>fpos := 3\<rparr>) test_ops),
          test_file\<lparr>fpos := 11\<rparr>)
   \<and> FileSection_seek (fst (fs_run (test_window, test_file\<lparr>fpos := 3\<rparr>) test_ops))
        (test_file\<lparr>fpos := 11\<rparr>) 9 []
       = (Some IllegalOffset, fst (fs_run (test_window, test_file\<lparr>fpos := 3\<rparr>) test_ops),
          test_file\<lparr>fpos := 11\<rparr>)
   \<and> FileSection_read (fst (fs_run (test_window, test_file\<lparr>fpos := 3\<rparr>) []))
        (test_file\<lparr>fpos := 12\<rparr>) 3
       = (Inr [0x63, 0x64, 0x65], test_window\<lparr>curpos := 3\<rparr>, test_file\<lparr>fpos := 15\<rparr>)"
proof -
  have le: "(3::int) \<le> 11" by simp
  let ?W = "fst (fs_run (test_window, test_file\<lparr>fpos := 3\<rparr>) test_ops)"
  let ?g = "test_file\<lparr>fpos := 11\<rparr>"
  have W: "?W = test_window\<lparr>curpos := 8\<rparr>" by (simp add: test_window_run)
  have tgt: "seek_target ?W 9 0 = 9" by (simp add: seek_target_def)
  have tel: "FileSection_tell ?W = 8" by (simp add: W FileSection_tell_def)
  note inst = FileSection_window_safety[OF test_window_init le,
    where ops = test_ops and g = ?g and sz = 1 and whence = 0 and offset = 9]
  from inst have sk: "FileSection_seek ?W ?g 9 [0] = (Some IllegalOffset, ?W, ?g)"
    and sk0: "FileSection_seek ?W ?g 9 [] = (Some IllegalOffset, ?W, ?g)"
    by (simp_all add: tgt)
  obtain res W' g' where rd: "FileSection_read ?W ?g 1 = (res, W', g')"
    by (cases "FileSection_read ?W ?g 1")
  from inst have "case res of Inl err \<Rightarrow> W' = ?W
      | Inr data \<Rightarrow> int (length data) \<le> max 0 (min 1 (11 - 3 - FileSection_tell ?W))
          \<and> FileSection_tell W' = FileSection_tell ?W + int (length data)"
    unfolding rd by simp
  moreover have "\<exists>data. res = Inr data"
    using rd unfolding W by (auto simp: FileSection_read_def test_window_def Let_def)
  ultimately have r: "res = Inr []" unfolding tel by auto
  have mv: "FileSection_read (fst (fs_run (test_window, test_file\<lparr>fpos := 3\<rparr>) []))
        (test_file\<lparr>fpos := 12\<rparr>) 3
       = (Inr [0x63, 0x64, 0x65], test_window\<lparr>curpos := 3\<rparr>, test_file\<lparr>fpos := 15\<rparr>)"
    by (simp add: fs_run_def test_window_moved)
  show ?thesis
    using test_window_init tel sk sk0 mv r rd by simp
qed


text \<open>
  What a reader of a section does, a \<open>seek\<close> to an offset of the window followed at once
  by a \<open>read\<close> (\<open>BTree.__init__\<close> with \<open>seek(0)\<close> and \<open>read(64)\<close>, \<open>BTree.readpage\<close> with
  \<open>seek(nr * pagesize)\<close> and \<open>read(pagesize)\<close>), does not depend on where the handle
  was: on a handle that accepts the position and the size, it returns the bytes of the
  window from the offset on, at most as many as asked for.
\<close>

lemma take_drop_window:
  "take n (drop a (take m (drop s xs))) = take (min n (m - a)) (drop (s + a) xs)"
  by (simp add: drop_take take_take add.commute)

lemma FileSection_seek_read:
  assumes s: "0 \<le> start W" and off: "0 \<le> off" "off \<le> endpos W - start W"
    and sl: "start W + off < int (seek_limit g)"
    and n: "0 < n" "n < int (read_limit g)"
  shows "\<exists>W' g' W'' g''.
           FileSection_seek W g off [] = (None, W', g')
         \<and> FileSection_read W' g' n
             = (Inr (take (nat n) (drop (nat off) (window (contents g) (start W) (endpos W)))),
                W'', g'')"
proof -
  let ?W' = "W\<lparr>curpos := off\<rparr>" and ?g' = "g\<lparr>fpos := nat (off + start W)\<rparr>"
  have sk: "FileSection_seek W g off [] = (None, ?W', ?g')"
    using s off sl by (simp add: FileSection_seek_def isvalidpos_def seek_fh_def sh_seek_def)
  define want where "want = min n (endpos W - start W - off)"
  have rd: "FileSection_read ?W' ?g' n =
      (if want \<le> 0 then (Inr [], ?W', ?g')
       else (case sh_read ?g' want of
               Inl err \<Rightarrow> (Inl err, ?W', ?g')
             | Inr (data, f') \<Rightarrow> (Inr data, ?W'\<lparr>curpos := curpos ?W' + int (length data)\<rparr>, f')))"
    by (simp add: FileSection_read_def want_def Let_def)
  show ?thesis
  proof (cases "want \<le> 0")
    case True
    with n off have eq: "off = endpos W - start W" by (simp add: want_def)
    have "take (nat n) (drop (nat off) (window (contents g) (start W) (endpos W))) = []"
      by (simp add: window_def eq)
    with sk rd True show ?thesis by simp
  next
    case False
    then have w: "\<not> want < 0" "\<not> int (read_limit g) \<le> want"
      using n by (simp_all add: want_def)
    have data: "take (nat want) (drop (nat (off + start W)) (contents g))
        = take (nat n) (drop (nat off) (window (contents g) (start W) (endpos W)))"
    proof -
      have "nat want = min (nat n) (nat (endpos W - start W) - nat off)"
        using off False by (simp add: want_def min_def) linarith
      moreover have "nat (off + start W) = nat (start W) + nat off"
        using s off by (simp add: nat_add_distrib)
      ultimately show ?thesis
        unfolding window_def take_drop_window by simp
    qed
    have "sh_read ?g' want
        = Inr (take (nat want) (drop (nat (off + start W)) (contents g)),
               ?g'\<lparr>fpos := nat (off + start W)
                    + length (take (nat want) (drop (nat (off + start W)) (contents g)))\<rparr>)"
      using w by (simp add: sh_read_def Let_def)
    with rd False have "\<exists>W'' g''. FileSection_read ?W' ?g' n
        = (Inr (take (nat want) (drop (nat (off + start W)) (contents g))), W'', g'')"
      by simp
    with sk data show ?thesis by auto
  qed
qed

section \<open>Decoding with \<open>struct\<close>\<close>

lemma le_nat_sum: "le_nat bs = (\<Sum>i < length bs. unat (bs ! i) * 256 ^ i)"
proof (induction bs)
  case Nil
  then show ?case by simp
next
  case (Cons b bs)
  have "(\<Sum>i < Suc (length bs). unat ((b # bs) ! i) * 256 ^ i)
      = unat b + (\<Sum>i < length bs. unat (bs ! i) * 256 ^ Suc i)"
    by (subst sum.lessThan_Suc_shift) simp
  also have "\<dots> = unat b + 256 * (\<Sum>i < length bs. unat (bs ! i) * 256 ^ i)"
    by (simp add: sum_distrib_left mult.assoc mult.left_commute)
  finally show ?case using Cons by simp
qed

lemma le_nat_take_drop:
  "ofs + n \<le> length data \<Longrightarrow> le_nat (take n (drop ofs data)) = le_at data ofs n"
proof -
  assume a: "ofs + n \<le> length data"
  then have len: "length (take n (drop ofs data)) = n" by simp
  show ?thesis unfolding le_nat_sum len le_at_def
    using a by (intro sum.cong) auto
qed

lemma le_at_bound: "le_at data ofs n < 256 ^ n"
proof (induction n)
  case 0
  then show ?case by (simp add: le_at_def)
next
  case (Suc n)
  have "unat (data ! (ofs + n)) < 256" using unsigned_less[of "data ! (ofs + n)", where 'a=nat] by simp
  then have "unat (data ! (ofs + n)) \<le> 255" by simp
  then have a: "unat (data ! (ofs + n)) * 256 ^ n \<le> 255 * (256::nat) ^ n"
    by (rule mult_right_mono) simp
  have b: "le_at data ofs (Suc n) = le_at data ofs n + unat (data ! (ofs + n)) * 256 ^ n"
    by (simp add: le_at_def)
  have c: "(256::nat) ^ Suc n = 255 * 256 ^ n + 256 ^ n" by simp
  show ?case unfolding b c using a Suc by linarith
qed

lemma unpack_fields_nth:
  "i < length fm \<Longrightarrow> calcsize fm \<le> length bs \<Longrightarrow>
   unpack_fields fm bs ! i = le_at bs (calcsize (take i fm)) (calcsize1 (fm ! i))"
proof (induction fm arbitrary: bs i)
  case Nil
  then show ?case by simp
next
  case (Cons c cs)
  show ?case
  proof (cases i)
    case 0
    then show ?thesis using Cons.prems le_nat_take_drop[of 0 "calcsize1 c" bs]
      by (simp add: calcsize_def)
  next
    case (Suc j)
    then have "unpack_fields (c # cs) bs ! i = unpack_fields cs (drop (calcsize1 c) bs) ! j" by simp
    also have "\<dots> = le_at (drop (calcsize1 c) bs) (calcsize (take j cs)) (calcsize1 (cs ! j))"
      using Cons.prems Suc by (intro Cons.IH) (auto simp: calcsize_def)
    also have "\<dots> = le_at bs (calcsize (take i (c # cs))) (calcsize1 ((c # cs) ! i))"
      using Cons.prems Suc by (simp add: le_at_def calcsize_def add.assoc)
    finally show ?thesis .
  qed
qed

lemma unpack_from_nth:
  assumes "unpack_from fm data ofs = Inr vs" "i < length fm"
  shows "vs ! i = le_at data (ofs + calcsize (take i fm)) (calcsize1 (fm ! i))"
proof -
  from assms have len: "ofs + calcsize fm \<le> length data" and vs: "vs = unpack_fields fm (drop ofs data)"
    by (auto simp: unpack_from_def split: if_splits)
  have "vs ! i = le_at (drop ofs data) (calcsize (take i fm)) (calcsize1 (fm ! i))"
    unfolding vs using assms(2) len by (intro unpack_fields_nth) auto
  also have "\<dots> = le_at data (ofs + calcsize (take i fm)) (calcsize1 (fm ! i))"
    using len by (simp add: le_at_def add.assoc)
  finally show ?thesis .
qed

lemma length_unpack_fields: "length (unpack_fields fm bs) = length fm"
  by (induction fm arbitrary: bs) auto


lemma replicate6: "replicate 6 x = [x, x, x, x, x, x]"
  by (simp add: numeral_eq_Suc)

lemma replicate5: "replicate 5 x = [x, x, x, x, x]"
  by (simp add: numeral_eq_Suc)

lemma le_at_take: "ofs + n \<le> m \<Longrightarrow> le_at (take m data) ofs n = le_at data ofs n"
  by (simp add: le_at_def)

lemma header_values:
  assumes "56 \<le> length hdrdata"
  shows "unpack_from (replicate 6 fL @ [fH] @ replicate 6 fL) hdrdata 6 =
     Inr [le_at hdrdata 6 4, le_at hdrdata 10 4, le_at hdrdata 14 4, le_at hdrdata 18 4,
          le_at hdrdata 22 4, le_at hdrdata 26 4, le_at hdrdata 30 2, le_at hdrdata 32 4,
          le_at hdrdata 36 4, le_at hdrdata 40 4, le_at hdrdata 44 4, le_at hdrdata 48 4,
          le_at hdrdata 52 4]"
  using assms
  by (simp add: unpack_from_def calcsize_def replicate6 le_nat_take_drop)

lemma header_ids:
  assumes "56 + calcsize fm \<le> length hdrdata" "fm = [fL, fH] \<or> fm = [fL, fL]"
  shows "unpack_from fm hdrdata 56 =
     Inr [le_at hdrdata 56 4, le_at hdrdata 60 (calcsize1 (fm ! 1))]"
  using assms
  by (auto simp add: unpack_from_def calcsize_def le_nat_take_drop)

text \<open>
  Claim C8.  In a container whose header has the sentinel \<open>0xAABBCCDD\<close> at offset 26 and
  a \<open>file_version\<close> (the 16-bit field at offset 30) below 5, \<open>IDBFile.__init__\<close> yields
  the five 32-bit offsets at 6, 10, 14, 18 and 22 and, as sixth, the 32-bit \<open>id2\<close> offset
  read at byte 56; the five checksums are the 32-bit fields at 36 to 52, and the \<open>id2\<close>
  checksum at byte 60 is 16 bits wide for version 1 and 32 bits wide otherwise.
\<close>

theorem IDBFile_header_below_v5:
  assumes mg: "take 4 (contents f) \<in> set magics"
    and len: "(if le_at (contents f) 30 2 = 1 then 62 else 64) \<le> length (contents f)"
    and sentinel: "le_at (contents f) 26 4 = 0xaabbccdd"
    and fv: "le_at (contents f) 30 2 < 5"
  shows "IDBFile_init f =
      Inr \<lparr>magic = take 4 (contents f),
           offsets = [le_at (contents f) 6 4, le_at (contents f) 10 4, le_at (contents f) 14 4,
                      le_at (contents f) 18 4, le_at (contents f) 22 4, le_at (contents f) 56 4],
           checksums = [le_at (contents f) 36 4, le_at (contents f) 40 4, le_at (contents f) 44 4,
                        le_at (contents f) 48 4, le_at (contents f) 52 4,
                        le_at (contents f) 60 (if le_at (contents f) 30 2 = 1 then 2 else 4)],
           fileversion = le_at (contents f) 30 2\<rparr>
    \<and> le_at (contents f) 60 (if le_at (contents f) 30 2 = 1 then 2 else 4)
        < (if le_at (contents f) 30 2 = 1 then 2 ^ 16 else 2 ^ 32)"
proof -
  define hdrdata where "hdrdata = take 256 (contents f)"
  have len62: "62 \<le> length (contents f)" using len by (simp split: if_splits)
  have rd: "fst (fh_read (f\<lparr>fpos := 0\<rparr>) 0x100) = hdrdata"
    by (simp add: fh_read_def hdrdata_def Let_def)
  have at: "\<And>ofs n. ofs + n \<le> 256 \<Longrightarrow> le_at hdrdata ofs n = le_at (contents f) ofs n"
    unfolding hdrdata_def by (rule le_at_take)
  have l56: "56 \<le> length hdrdata" using len62 by (simp add: hdrdata_def)
  have mg': "take 4 hdrdata = take 4 (contents f)" by (simp add: hdrdata_def)
  let ?fv = "le_at (contents f) 30 2"
  have ids1: "unpack_from [fL, fH] hdrdata 56 = Inr [le_at (contents f) 56 4, le_at (contents f) 60 2]"
    if "?fv = 1"
    using header_ids[of "[fL, fH]" hdrdata] len that by (simp add: hdrdata_def calcsize_def le_at_take)
  have ids2: "unpack_from [fL, fL] hdrdata 56 = Inr [le_at (contents f) 56 4, le_at (contents f) 60 4]"
    if "?fv \<noteq> 1"
    using header_ids[of "[fL, fL]" hdrdata] len that by (simp add: hdrdata_def calcsize_def le_at_take)
  have init: "IDBFile_init f = Inr \<lparr>magic = take 4 (contents f),
           offsets = [le_at (contents f) 6 4, le_at (contents f) 10 4, le_at (contents f) 14 4,
                      le_at (contents f) 18 4, le_at (contents f) 22 4, le_at (contents f) 56 4],
           checksums = [le_at (contents f) 36 4, le_at (contents f) 40 4, le_at (contents f) 44 4,
                        le_at (contents f) 48 4, le_at (contents f) 52 4,
                        le_at (contents f) 60 (if ?fv = 1 then 2 else 4)],
           fileversion = ?fv\<rparr>"
  proof (cases "?fv = 1")
    case True
    show ?thesis
      unfolding IDBFile_init_def fh_seek_def
      using mg sentinel fv True
      by (simp add: rd mg' header_values[OF l56, simplified] at header_v1to4_def ids1 Let_def)
  next
    case False
    show ?thesis
      unfolding IDBFile_init_def fh_seek_def
      using mg sentinel fv False
      by (simp add: rd mg' header_values[OF l56, simplified] at header_v1to4_def ids2 Let_def)
  qed
  have bnd: "le_at (contents f) 60 (if ?fv = 1 then 2 else 4) < (if ?fv = 1 then 2 ^ 16 else 2 ^ 32)"
    using le_at_bound[of "contents f" 60 2] le_at_bound[of "contents f" 60 4] by simp
  from init bnd show ?thesis by blast
qed


text \<open>Two headers of 64 bytes that differ in the version only: version 4 and version 1.\<close>

definition header_v4 :: fileobj where
  "header_v4 = \<lparr>contents =
    [0x49, 0x44, 0x41, 0x31, 0x00, 0x00, 0x00, 0x01, 0x00, 0x00, 0x00, 0x20,
     0x00, 0x00, 0x00, 0x30, 0x00, 0x00, 0x00, 0x00, 0x00, 0x00, 0x00, 0x40,
     0x00, 0x00, 0xdd, 0xcc, 0xbb, 0xaa, 0x04, 0x00, 0x00, 0x00, 0x00, 0x00,
     0x11, 0x11, 0x11, 0x11, 0x22, 0x22, 0x22, 0x22, 0x33, 0x33, 0x33, 0x33,
     0x44, 0x44, 0x44, 0x44, 0x55, 0x55, 0x55, 0x55, 0x00, 0x50, 0x00, 0x00,
     0x78, 0x56, 0x34, 0x12], fpos = 0\<rparr>"

definition header_v1 :: fileobj where
  "header_v1 = \<lparr>contents =
    [0x49, 0x44, 0x41, 0x31, 0x00, 0x00, 0x00, 0x01, 0x00, 0x00, 0x00, 0x20,
     0x00, 0x00, 0x00, 0x30, 0x00, 0x00, 0x00, 0x00, 0x00, 0x00, 0x00, 0x40,
     0x00, 0x00, 0xdd, 0xcc, 0xbb, 0xaa, 0x01, 0x00, 0x00, 0x00, 0x00, 0x00,
     0x11, 0x11, 0x11, 0x11, 0x22, 0x22, 0x22, 0x22, 0x33, 0x33, 0x33, 0x33,
     0x44, 0x44, 0x44, 0x44, 0x55, 0x55, 0x55, 0x55, 0x00, 0x50, 0x00, 0x00,
     0x78, 0x56, 0x34, 0x12], fpos = 0\<rparr>"

lemma le_at_2: "le_at data ofs 2 = unat (data ! ofs) + 256 * unat (data ! (ofs + 1))"
proof -
  have "{..<2::nat} = {0, 1}" by auto
  then show ?thesis by (simp add: le_at_def)
qed

lemma le_at_4: "le_at data ofs 4 = unat (data ! ofs) + 256 * unat (data ! (ofs + 1))
    + 65536 * unat (data ! (ofs + 2)) + 16777216 * unat (data ! (ofs + 3))"
proof -
  have "{..<4::nat} = {0, 1, 2, 3}" by auto
  then show ?thesis by (simp add: le_at_def)
qed

theorem IDBFile_header_below_v5_witness:
  "IDBFile_init header_v4 =
      Inr \<lparr>magic = [0x49, 0x44, 0x41, 0x31],
           offsets = [0x100, 0x2000, 0x3000, 0, 0x4000, 0x5000],
           checksums = [0x11111111, 0x22222222, 0x33333333, 0x44444444, 0x55555555, 0x12345678],
           fileversion = 4\<rparr>
   \<and> IDBFile_init header_v1 =
      Inr \<lparr>magic = [0x49, 0x44, 0x41, 0x31],
           offsets = [0x100, 0x2000, 0x3000, 0, 0x4000, 0x5000],
           checksums = [0x11111111, 0x22222222, 0x33333333, 0x44444444, 0x55555555, 0x5678],
           fileversion = 1\<rparr>"
proof -
  have v4: "le_at (contents header_v4) 30 2 = 4" and v1: "le_at (contents header_v1) 30 2 = 1"
    by (simp_all add: le_at_2 header_v4_def header_v1_def)
  have s4: "le_at (contents header_v4) 26 4 = 0xaabbccdd"
    and s1: "le_at (contents header_v1) 26 4 = 0xaabbccdd"
    by (simp_all add: le_at_4 header_v4_def header_v1_def)
  have m4: "take 4 (contents header_v4) \<in> set magics"
    and m1: "take 4 (contents header_v1) \<in> set magics"
    by (simp_all add: magics_def header_v4_def header_v1_def)
  have l4: "(if le_at (contents header_v4) 30 2 = 1 then 62 else 64) \<le> length (contents header_v4)"
    and l1: "(if le_at (contents header_v1) 30 2 = 1 then 62 else 64) \<le> length (contents header_v1)"
    unfolding v4 v1 by (simp_all add: header_v4_def header_v1_def)
  have a: "IDBFile_init header_v4 =
      Inr \<lparr>magic = [0x49, 0x44, 0x41, 0x31],
           offsets = [0x100, 0x2000, 0x3000, 0, 0x4000, 0x5000],
           checksums = [0x11111111, 0x22222222, 0x33333333, 0x44444444, 0x55555555, 0x12345678],
           fileversion = 4\<rparr>"
    using IDBFile_header_below_v5[OF m4 l4 s4] unfolding v4
    by (simp add: le_at_4 header_v4_def)
  have b: "IDBFile_init header_v1 =
      Inr \<lparr>magic = [0x49, 0x44, 0x41, 0x31],
           offsets = [0x100, 0x2000, 0x3000, 0, 0x4000, 0x5000],
           checksums = [0x11111111, 0x22222222, 0x33333333, 0x44444444, 0x55555555, 0x5678],
           fileversion = 1\<rparr>"
    using IDBFile_header_below_v5[OF m1 l1 s1] unfolding v1
    by (simp add: le_at_4 le_at_2 header_v1_def)
  from a b show ?thesis by (rule conjI)
qed

section \<open>Leaf keys\<close>

lemma LeafEntry_init_Inr:
  assumes "LeafEntry_init lay pk data ofs = Inr ent"
  shows "\<exists>ind u1 u recofs suffix v.
           leaf_slot lay data ofs = Inr (ind, u1, u, recofs)
         \<and> BaseIndexEntry_init data recofs = Inr (suffix, v)
         \<and> ent = LeafEntry ind u1 u (take ind pk @ suffix) v"
  using assms by (auto simp: LeafEntry_init_def split: sum.splits prod.splits)

lemma read_entries_leaf:
  assumes "read_entries lay False data es pk ixs = Inr ents"
  shows "length ents = length ixs
       \<and> (\<forall>j < length ixs. \<exists>ind u1 u recofs suffix v.
             leaf_slot lay data (es * (1 + ixs ! j)) = Inr (ind, u1, u, recofs)
           \<and> BaseIndexEntry_init data recofs = Inr (suffix, v)
           \<and> ents ! j = LeafEntry ind u1 u
                 (take ind (if j = 0 then pk else key (ents ! (j - 1))) @ suffix) v)"
  using assms
proof (induction ixs arbitrary: pk ents)
  case Nil
  then show ?case by simp
next
  case (Cons i ixs)
  from Cons.prems obtain ent rest where
    ent: "LeafEntry_init lay pk data (es * (1 + i)) = Inr ent"
    and rest: "read_entries lay False data es (key ent) ixs = Inr rest"
    and ents: "ents = ent # rest"
    by (auto split: sum.splits)
  note IH = Cons.IH[OF rest]
  from LeafEntry_init_Inr[OF ent] obtain ind u1 u recofs suffix v where
    e0: "leaf_slot lay data (es * (1 + i)) = Inr (ind, u1, u, recofs)"
      "BaseIndexEntry_init data recofs = Inr (suffix, v)"
      "ent = LeafEntry ind u1 u (take ind pk @ suffix) v"
    by blast
  have len: "length ents = length (i # ixs)" using IH ents by simp
  have "\<exists>ind u1 u recofs suffix v.
             leaf_slot lay data (es * (1 + (i # ixs) ! j)) = Inr (ind, u1, u, recofs)
           \<and> BaseIndexEntry_init data recofs = Inr (suffix, v)
           \<and> ents ! j = LeafEntry ind u1 u
                 (take ind (if j = 0 then pk else key (ents ! (j - 1))) @ suffix) v"
    if j: "j < length (i # ixs)" for j
  proof (cases j)
    case 0
    then show ?thesis using e0 ents by simp
  next
    case (Suc j')
    then have j': "j' < length ixs" using j by simp
    from IH j' obtain ind' u1' u' recofs' suffix' v' where
      e: "leaf_slot lay data (es * (1 + ixs ! j')) = Inr (ind', u1', u', recofs')"
        "BaseIndexEntry_init data recofs' = Inr (suffix', v')"
        "rest ! j' = LeafEntry ind' u1' u'
            (take ind' (if j' = 0 then key ent else key (rest ! (j' - 1))) @ suffix') v'"
      by blast
    have prev: "(if j' = 0 then key ent else key (rest ! (j' - 1))) = key (ents ! (j - 1))"
      using Suc ents by (cases j') simp_all
    show ?thesis using e Suc ents prev by simp
  qed
  with len show ?case by blast
qed

lemma BasePage_init_leaf:
  assumes "BasePage_init lay data = Inr pg" "isleaf pg"
  shows "read_entries lay False data (entsize_of lay) [] [0..<count pg] = Inr (index pg)"
  using assms
  by (auto simp: BasePage_init_def isleaf_def Let_def split: sum.splits)

text \<open>
  Claim C4.  In every decoded leaf page, of any of the three layouts, entry \<open>i\<close> is read
  from its slot \<open>(indent, unknown1, unknown, recofs)\<close> at \<open>entsize * (1 + i)\<close> and from the
  record body at \<open>recofs\<close>, which holds the stored key suffix and the value; the key of
  the entry is the first \<open>indent\<close> bytes of the key of the entry before it in the page,
  of the empty key for the first entry, followed by the stored suffix.
\<close>

theorem leaf_key_reconstruction:
  assumes "BasePage_init lay data = Inr pg" and "isleaf pg" and "i < length (index pg)"
  shows "\<exists>ind u1 u recofs suffix v.
           leaf_slot lay data (entsize_of lay * (1 + i)) = Inr (ind, u1, u, recofs)
         \<and> BaseIndexEntry_init data recofs = Inr (suffix, v)
         \<and> index pg ! i = LeafEntry ind u1 u
              (take ind (if i = 0 then [] else key (index pg ! (i - 1))) @ suffix) v"
proof -
  note re = read_entries_leaf[OF BasePage_init_leaf[OF assms(1,2)]]
  from re have len: "length (index pg) = count pg" by simp
  with assms(3) have i: "i < length [0..<count pg]" by simp
  from re i have "\<exists>ind u1 u recofs suffix v.
             leaf_slot lay data (entsize_of lay * (1 + [0..<count pg] ! i)) = Inr (ind, u1, u, recofs)
           \<and> BaseIndexEntry_init data recofs = Inr (suffix, v)
           \<and> index pg ! i = LeafEntry ind u1 u
                 (take ind (if i = 0 then [] else key (index pg ! (i - 1))) @ suffix) v"
    by blast
  moreover have "[0..<count pg] ! i = i" using i by simp
  ultimately show ?thesis by simp
qed

text \<open>The page of the specification's scenario S5, a v1.6 leaf page with the entries
  \<open>(indent = 0, suffix = "NamedNode")\<close> and \<open>(indent = 5, suffix = "Ref")\<close>: the keys are
  \<open>"NamedNode"\<close> and \<open>"NamedRef"\<close>.\<close>

definition named_page :: bytes where
  "named_page =
    [0x00, 0x00, 0x00, 0x00, 0x02, 0x00, 0x00, 0x00, 0x00, 0x00, 0x18, 0x00, 0x05, 0x00, 0x00, 0x00,
     0x27, 0x00, 0x00, 0x00, 0x00, 0x00, 0x30, 0x00, 0x00, 0x09, 0x00, 0x4e, 0x61, 0x6d, 0x65, 0x64,
     0x4e, 0x6f, 0x64, 0x65, 0x01, 0x00, 0x01, 0x00, 0x03, 0x00, 0x52, 0x65, 0x66, 0x01, 0x00, 0x02,
     0x00, 0x00, 0x00, 0x00, 0x00, 0x00, 0x00, 0x00, 0x00, 0x00, 0x00, 0x00, 0x00, 0x00, 0x00, 0x00]"

definition named_leaf :: BasePage where
  "named_leaf = \<lparr>preceeding = 0, count = 2,
      index = [LeafEntry 0 0 0 (ascii ''NamedNode'') [0x01],
               LeafEntry 5 0 0 (ascii ''NamedRef'') [0x02]],
      page_unknown = 0, freeptr = 48\<rparr>"

lemma named_page_init: "BasePage_init Page16 named_page = Inr named_leaf"
  by (simp add: named_page_def named_leaf_def ascii_def BasePage_init_def entsize_of_def
      entfmt_of_def unpack_from_def calcsize_def LeafEntry_init_def leaf_slot_def
      BaseIndexEntry_init_def Let_def upt_conv_Cons)

theorem leaf_key_reconstruction_witness:
  "BasePage_init Page16 named_page = Inr named_leaf \<and> isleaf named_leaf
   \<and> leaf_slot Page16 named_page 6 = Inr (0, 0, 0, 25)
   \<and> BaseIndexEntry_init named_page 25 = Inr (ascii ''NamedNode'', [0x01])
   \<and> leaf_slot Page16 named_page 12 = Inr (5, 0, 0, 40)
   \<and> BaseIndexEntry_init named_page 40 = Inr (ascii ''Ref'', [0x02])
   \<and> map key (index named_leaf) = [ascii ''NamedNode'', ascii ''NamedRef'']
   \<and> key (index named_leaf ! 1) = take 5 (key (index named_leaf ! 0)) @ ascii ''Ref''"
proof -
  have lf: "isleaf named_leaf" by (simp add: isleaf_def named_leaf_def)
  have i1: "1 < length (index named_leaf)" by (simp add: named_leaf_def)
  have s0: "leaf_slot Page16 named_page 6 = Inr (0, 0, 0, 25)"
    by (simp add: leaf_slot_def named_page_def unpack_from_def calcsize_def)
  have b0: "BaseIndexEntry_init named_page 25 = Inr (ascii ''NamedNode'', [0x01])"
    by (simp add: BaseIndexEntry_init_def named_page_def unpack_from_def calcsize_def ascii_def Let_def)
  have s1: "leaf_slot Page16 named_page 12 = Inr (5, 0, 0, 40)"
    by (simp add: leaf_slot_def named_page_def unpack_from_def calcsize_def)
  have b1: "BaseIndexEntry_init named_page 40 = Inr (ascii ''Ref'', [0x02])"
    by (simp add: BaseIndexEntry_init_def named_page_def unpack_from_def calcsize_def ascii_def Let_def)
  from leaf_key_reconstruction[OF named_page_init lf i1]
  have k1: "key (index named_leaf ! 1) = take 5 (key (index named_leaf ! 0)) @ ascii ''Ref''"
    using s1 b1 by (auto simp: entsize_of_def)
  have keys: "map key (index named_leaf) = [ascii ''NamedNode'', ascii ''NamedRef'']"
    by (simp add: named_leaf_def)
  show ?thesis using named_page_init lf s0 b0 s1 b1 keys k1 by simp
qed

section \<open>Moving a cursor: \<open>Cursor.next\<close> and \<open>Cursor.prev\<close>\<close>

lemma chain_append:
  "chain f (xs @ ys) e = (chain f xs (hd_or ys e) \<and> chain f ys e)"
proof (induction xs)
  case Nil
  then show ?case by simp
next
  case (Cons x xs)
  have "hd_or (xs @ ys) e = hd_or xs (hd_or ys e)" by (cases xs) simp_all
  then show ?case using Cons by auto
qed

lemma chain_mid: "chain f (A @ s # B) e \<Longrightarrow> f s = Some (Inr (hd_or B e))"
  by (simp add: chain_append)

lemma hd_or_nonempty: "xs \<noteq> [] \<Longrightarrow> hd_or xs e = hd xs"
  by (cases xs) simp_all

lemma hd_or_append: "hd_or (xs @ ys) e = hd_or xs (hd_or ys e)"
  by (cases xs) simp_all

lemma hd_or_rev: "xs \<noteq> [] \<Longrightarrow> hd_or (rev xs) e = last xs"
  by (cases xs rule: rev_cases) simp_all

lemma next_ascend_stay:
  "ix \<noteq> int (length (index pg)) \<Longrightarrow> next_ascend pg ix st = (pg, ix, st)"
  by (cases st) auto

lemma next_ascend_exit:
  assumes "valid_stack st"
  shows "(case next_ascend pg (int (length (index pg))) st of
            (pg', ix', st') \<Rightarrow> if ix' < int (length (index pg')) then (pg', ix') # st' else st')
         = next_exit st"
  using assms
proof (induction st arbitrary: pg)
  case Nil
  then show ?case by simp
next
  case (Cons fr st)
  obtain p j where fr: "fr = (p, j)" by (cases fr)
  from Cons.prems have j: "j < int (length (index p))" and v: "valid_stack st"
    by (simp_all add: valid_stack_def fr)
  show ?case
  proof (cases "j + 1 < int (length (index p))")
    case True
    then show ?thesis by (simp add: fr next_ascend_stay)
  next
    case False
    with j have "j + 1 = int (length (index p))" by simp
    then show ?thesis using Cons.IH[OF v, of p] False by (simp add: fr)
  qed
qed

lemma Cursor_next_leaf:
  assumes "isleaf pg" "0 \<le> i" "i < int (length (index pg))" "valid_stack st"
  shows "Cursor_next db ((pg, i) # st)
         = Some (Inr (if i + 1 < int (length (index pg)) then (pg, i + 1) # st else next_exit st))"
proof (cases "i + 1 < int (length (index pg))")
  case True
  then show ?thesis using assms by (simp add: Cursor_next_def next_ascend_stay)
next
  case False
  with assms have eq: "i + 1 = int (length (index pg))" by simp
  show ?thesis using next_ascend_exit[OF assms(4), of pg] assms(1) False
    by (auto simp: Cursor_next_def eq split: prod.splits)
qed

lemma prev_ascend_stay: "0 \<le> ix \<Longrightarrow> prev_ascend pg ix st = (pg, ix, st)"
  by (cases st) auto

lemma prev_ascend_exit:
  "ix < 0 \<Longrightarrow> (case prev_ascend pg ix st of (pg', ix', st') \<Rightarrow> if ix' \<ge> 0 then (pg', ix') # st' else st')
     = prev_exit st"
proof (induction st arbitrary: pg ix)
  case Nil
  then show ?case by simp
next
  case (Cons fr st)
  obtain p j where fr: "fr = (p, j)" by (cases fr)
  show ?case
  proof (cases "j < 0")
    case True
    then show ?thesis using Cons.IH[OF True, of p] Cons.prems by (simp add: fr)
  next
    case False
    then show ?thesis using Cons.prems by (simp add: fr prev_ascend_stay)
  qed
qed

lemma Cursor_prev_leaf:
  assumes "isleaf pg" "0 \<le> i"
  shows "Cursor_prev db ((pg, i) # st)
         = Some (Inr (if 0 < i then (pg, i - 1) # st else prev_exit st))"
proof (cases "0 < i")
  case True
  then show ?thesis using assms by (simp add: Cursor_prev_def prev_ascend_stay Let_def)
next
  case False
  with assms have i0: "i = 0" by simp
  show ?thesis using prev_ascend_exit[of "-1" pg st] assms(1)
    by (auto simp: Cursor_prev_def i0 Let_def split: prod.splits)
qed

lemma isindex_iff: "isindex pg = (\<not> isleaf pg)"
  by (simp add: isindex_def isleaf_def)

lemma wf_page_leaf: "wf_page db h pg \<Longrightarrow> isleaf pg \<Longrightarrow> index pg \<noteq> []"
  by (cases h) simp_all

lemma wf_page_0: "wf_page db 0 pg \<Longrightarrow> isleaf pg"
  by simp

lemma wf_page_child:
  assumes "wf_page db (Suc h) pg" "\<not> isleaf pg" "-1 \<le> ix" "ix < int (length (index pg))"
  shows "\<exists>c. readchild db pg ix = Inr c \<and> wf_page db h c"
proof (cases "ix = -1")
  case True
  then show ?thesis using assms(1,2) by (auto simp: child_ok_def split: sum.splits)
next
  case False
  with assms(3,4) have "nat ix < length (index pg)" "int (nat ix) = ix" by simp_all
  moreover from assms(1,2)
  have "\<forall>i < length (index pg). child_ok (wf_page db h) db pg (int i)"
    by (simp add: list_all_iff)
  ultimately have "child_ok (wf_page db h) db pg ix" by metis
  then show ?thesis by (auto simp: child_ok_def split: sum.splits)
qed

lemma positions_leaf: "isleaf pg \<Longrightarrow> positions db h pg st = leaf_positions pg st"
  by (cases h) simp_all

lemma positions_index:
  "\<not> isleaf pg \<Longrightarrow> positions db (Suc h) pg st =
     below (positions db h) db pg st (-1)
     @ concat (map (\<lambda>i. ((pg, int i) # st) # below (positions db h) db pg st (int i))
                   [0..<length (index pg)])"
  by simp

lemma below_child: "readchild db pg ix = Inr c \<Longrightarrow> below f db pg st ix = f c ((pg, ix) # st)"
  by (simp add: below_def)

lemma positions_nonempty: "wf_page db h pg \<Longrightarrow> positions db h pg st \<noteq> []"
proof (induction h arbitrary: pg st)
  case 0
  then show ?case by (simp add: leaf_positions_def)
next
  case (Suc h)
  show ?case
  proof (cases "isleaf pg")
    case True
    then show ?thesis using Suc.prems by (simp add: leaf_positions_def)
  next
    case False
    obtain c where c: "readchild db pg (-1) = Inr c" "wf_page db h c"
      using wf_page_child[OF Suc.prems False, of "-1"] by auto
    then show ?thesis using Suc.IH[OF c(2)] False by (simp add: below_child)
  qed
qed

lemma hd_leaf_positions: "index pg \<noteq> [] \<Longrightarrow> hd (leaf_positions pg st) = (pg, 0) # st"
  by (simp add: leaf_positions_def hd_map upt_conv_Cons)

lemma last_leaf_positions:
  "index pg \<noteq> [] \<Longrightarrow> last (leaf_positions pg st) = (pg, int (length (index pg)) - 1) # st"
proof -
  assume "index pg \<noteq> []"
  then obtain n where n: "length (index pg) = Suc n" by (cases "index pg") auto
  show ?thesis by (simp add: leaf_positions_def n)
qed

lemma next_descend_first:
  "wf_page db h pg \<Longrightarrow> next_descend db pg st = Some (Inr (hd (positions db h pg st)))"
proof (induction h arbitrary: pg st)
  case 0
  then show ?case
    by (subst next_descend.simps) (simp add: isindex_iff hd_leaf_positions)
next
  case (Suc h)
  show ?case
  proof (cases "isleaf pg")
    case True
    then show ?thesis using Suc.prems
      by (subst next_descend.simps) (simp add: isindex_iff hd_leaf_positions)
  next
    case False
    obtain c where c: "readchild db pg (-1) = Inr c" "wf_page db h c"
      using wf_page_child[OF Suc.prems False, of "-1"] by auto
    have "next_descend db pg st = next_descend db c ((pg, -1) # st)"
      using False c(1) by (subst next_descend.simps) (simp add: isindex_iff)
    also have "\<dots> = Some (Inr (hd (positions db h c ((pg, -1) # st))))"
      by (rule Suc.IH[OF c(2)])
    also have "hd (positions db h c ((pg, -1) # st)) = hd (positions db (Suc h) pg st)"
      using positions_nonempty[OF c(2)] False c(1) by (simp add: below_child)
    finally show ?thesis .
  qed
qed

lemma Cursor_next_index:
  assumes "\<not> isleaf pg" "readchild db pg ix = Inr c" "wf_page db h c"
  shows "Cursor_next db ((pg, ix) # st) = Some (Inr (hd (positions db h c ((pg, ix) # st))))"
  using assms next_descend_first[OF assms(3)] by (simp add: Cursor_next_def)

lemma chain_next_leaf:
  assumes "isleaf pg" "valid_stack st"
  shows "i \<le> length (index pg) \<Longrightarrow>
    chain (Cursor_next db) (map (\<lambda>i. (pg, int i) # st) [i..<length (index pg)]) (next_exit st)"
proof (induction "length (index pg) - i" arbitrary: i)
  case 0
  then show ?case by simp
next
  case (Suc d)
  then have lt: "i < length (index pg)" by simp
  have nx: "Cursor_next db ((pg, int i) # st)
      = Some (Inr (if int i + 1 < int (length (index pg)) then (pg, int i + 1) # st else next_exit st))"
    using lt by (intro Cursor_next_leaf assms) simp_all
  have hdo: "hd_or (map (\<lambda>i. (pg, int i) # st) [Suc i..<length (index pg)]) (next_exit st)
      = (if int i + 1 < int (length (index pg)) then (pg, int i + 1) # st else next_exit st)"
    by (cases "Suc i < length (index pg)") (simp_all add: upt_conv_Cons add.commute)
  have rest: "chain (Cursor_next db) (map (\<lambda>i. (pg, int i) # st) [Suc i..<length (index pg)]) (next_exit st)"
    using Suc.hyps(2) lt by (intro Suc.hyps(1)) simp_all
  show ?case using lt nx hdo rest by (simp add: upt_conv_Cons)
qed

lemma chain_next_positions:
  "wf_page db h pg \<Longrightarrow> valid_stack st \<Longrightarrow>
   chain (Cursor_next db) (positions db h pg st) (next_exit st)"
proof (induction h arbitrary: pg st)
  case 0
  then have leaf: "isleaf pg" by simp
  show ?case using chain_next_leaf[OF leaf "0.prems"(2), of 0 db]
    by (simp add: leaf leaf_positions_def)
next
  case (Suc h)
  show ?case
  proof (cases "isleaf pg")
    case True
    show ?thesis using chain_next_leaf[OF True Suc.prems(2), of 0 db]
      by (simp add: True leaf_positions_def)
  next
    case False
    let ?n = "length (index pg)"
    let ?b = "below (positions db h) db pg st"
    let ?g = "\<lambda>i. ((pg, int i) # st) # ?b (int i)"
    let ?e = "next_exit st"
    have sub: "chain (Cursor_next db) (?b ix) (next_exit ((pg, ix) # st)) \<and> ?b ix \<noteq> []
        \<and> Cursor_next db ((pg, ix) # st) = Some (Inr (hd (?b ix)))"
      if ix: "-1 \<le> ix" "ix < int ?n" for ix
    proof -
      obtain c where c: "readchild db pg ix = Inr c" "wf_page db h c"
        using wf_page_child[OF Suc.prems(1) False ix] by auto
      have v: "valid_stack ((pg, ix) # st)"
        using Suc.prems(2) ix by (simp add: valid_stack_def)
      show ?thesis
        using Suc.IH[OF c(2) v] positions_nonempty[OF c(2)] Cursor_next_index[OF False c]
        by (simp add: below_child[OF c(1)])
    qed
    have hdo: "hd_or (concat (map ?g [j..<?n])) ?e = (if j < ?n then (pg, int j) # st else ?e)" for j
      by (cases "j < ?n") (simp_all add: upt_conv_Cons)
    have ents: "i \<le> ?n \<Longrightarrow> chain (Cursor_next db) (concat (map ?g [i..<?n])) ?e" for i
    proof (induction "?n - i" arbitrary: i)
      case 0
      then show ?case by simp
    next
      case (Suc d)
      then have lt: "i < ?n" by simp
      have s: "chain (Cursor_next db) (?b (int i)) (next_exit ((pg, int i) # st))"
        "?b (int i) \<noteq> []" "Cursor_next db ((pg, int i) # st) = Some (Inr (hd (?b (int i))))"
        using sub[of "int i"] lt by simp_all
      have ex: "next_exit ((pg, int i) # st) = hd_or (concat (map ?g [Suc i..<?n])) ?e"
        unfolding hdo by (auto simp: add.commute)
      have rest: "chain (Cursor_next db) (concat (map ?g [Suc i..<?n])) ?e"
        using Suc.hyps(2) lt by (intro Suc.hyps(1)) simp_all
      have "chain (Cursor_next db) (?g i @ concat (map ?g [Suc i..<?n])) ?e"
        using s(1)[unfolded ex] s(2,3) rest
        by (simp add: chain_append hd_or_append hd_or_nonempty del: next_exit.simps)
      then show ?case using lt by (simp add: upt_conv_Cons)
    qed
    have "next_exit ((pg, -1) # st) = hd_or (concat (map ?g [0..<?n])) ?e"
      unfolding hdo by auto
    then have pre: "chain (Cursor_next db) (?b (-1)) (hd_or (concat (map ?g [0..<?n])) ?e)"
      using sub[of "-1"] by (simp del: next_exit.simps)
    show ?thesis
      unfolding positions_index[OF False] chain_append
      using pre ents[of 0] by simp
  qed
qed

lemma last_positions_index:
  assumes "\<not> isleaf pg" "below (positions db h) db pg st (int (length (index pg)) - 1) \<noteq> []"
  shows "last (positions db (Suc h) pg st)
         = last (below (positions db h) db pg st (int (length (index pg)) - 1))"
proof (cases "length (index pg)")
  case 0
  then show ?thesis using assms by simp
next
  case (Suc m)
  have "int (Suc m) - 1 = int m" by simp
  then show ?thesis using assms by (simp add: Suc)
qed

lemma prev_descend_last:
  "wf_page db h c \<Longrightarrow>
   prev_descend db c (int (length (index c)) - 1) ((c, int (length (index c)) - 1) # st)
     = Some (Inr (last (positions db h c st)))"
proof (induction h arbitrary: c st)
  case 0
  then show ?case
    by (subst prev_descend.simps) (simp add: isindex_iff last_leaf_positions)
next
  case (Suc h)
  show ?case
  proof (cases "isleaf c")
    case True
    then show ?thesis using Suc.prems
      by (subst prev_descend.simps) (simp add: isindex_iff last_leaf_positions)
  next
    case False
    let ?ix = "int (length (index c)) - 1"
    obtain c' where c': "readchild db c ?ix = Inr c'" "wf_page db h c'"
      using wf_page_child[OF Suc.prems False, of ?ix] by auto
    have ne: "below (positions db h) db c st ?ix \<noteq> []"
      using positions_nonempty[OF c'(2)] by (simp add: below_child[OF c'(1)])
    have "prev_descend db c ?ix ((c, ?ix) # st)
        = prev_descend db c' (int (length (index c')) - 1)
            ((c', int (length (index c')) - 1) # (c, ?ix) # st)"
      using False c'(1) by (subst prev_descend.simps) (simp add: isindex_iff)
    also have "\<dots> = Some (Inr (last (positions db h c' ((c, ?ix) # st))))"
      by (rule Suc.IH[OF c'(2)])
    also have "last (positions db h c' ((c, ?ix) # st)) = last (positions db (Suc h) c st)"
      unfolding last_positions_index[OF False ne] by (simp add: below_child[OF c'(1)])
    finally show ?thesis .
  qed
qed

lemma Cursor_prev_index:
  assumes "\<not> isleaf pg" "readchild db pg (i - 1) = Inr c" "wf_page db h c"
  shows "Cursor_prev db ((pg, i) # st) = Some (Inr (last (positions db h c ((pg, i - 1) # st))))"
proof -
  have "Cursor_prev db ((pg, i) # st) = prev_descend db pg (i - 1) ((pg, i - 1) # st)"
    using assms(1) by (simp add: Cursor_prev_def Let_def)
  also have "\<dots> = prev_descend db c (int (length (index c)) - 1)
            ((c, int (length (index c)) - 1) # (pg, i - 1) # st)"
    using assms(1,2) by (subst prev_descend.simps) (simp add: isindex_iff)
  also have "\<dots> = Some (Inr (last (positions db h c ((pg, i - 1) # st))))"
    by (rule prev_descend_last[OF assms(3)])
  finally show ?thesis .
qed

lemma chain_prev_leaf:
  assumes "isleaf pg"
  shows "chain (Cursor_prev db) (rev (map (\<lambda>i. (pg, int i) # st) [0..<i])) (prev_exit st)"
proof (induction i)
  case 0
  then show ?case by simp
next
  case (Suc i)
  have pv: "Cursor_prev db ((pg, int i) # st)
      = Some (Inr (if 0 < int i then (pg, int i - 1) # st else prev_exit st))"
    by (intro Cursor_prev_leaf assms) simp
  have hdo: "hd_or (rev (map (\<lambda>i. (pg, int i) # st) [0..<i])) (prev_exit st)
      = (if 0 < int i then (pg, int i - 1) # st else prev_exit st)"
    by (cases i) simp_all
  show ?case using Suc pv hdo by simp
qed

lemma chain_prev_positions:
  "wf_page db h pg \<Longrightarrow> chain (Cursor_prev db) (rev (positions db h pg st)) (prev_exit st)"
proof (induction h arbitrary: pg st)
  case 0
  then have leaf: "isleaf pg" by simp
  show ?case using chain_prev_leaf[OF leaf] by (simp add: leaf leaf_positions_def)
next
  case (Suc h)
  show ?case
  proof (cases "isleaf pg")
    case True
    show ?thesis using chain_prev_leaf[OF True] by (simp add: True leaf_positions_def)
  next
    case False
    let ?n = "length (index pg)"
    let ?b = "below (positions db h) db pg st"
    let ?g = "\<lambda>i. ((pg, int i) # st) # ?b (int i)"
    let ?e = "prev_exit st"
    let ?X = "\<lambda>i. ?b (-1) @ concat (map ?g [0..<i])"
    have sub: "chain (Cursor_prev db) (rev (?b ix)) (prev_exit ((pg, ix) # st)) \<and> ?b ix \<noteq> []
        \<and> Cursor_prev db ((pg, ix + 1) # st) = Some (Inr (last (?b ix)))"
      if ix: "-1 \<le> ix" "ix < int ?n" for ix
    proof -
      obtain c where c: "readchild db pg ix = Inr c" "wf_page db h c"
        using wf_page_child[OF Suc.prems(1) False ix] by auto
      show ?thesis
        using Suc.IH[OF c(2), of "(pg, ix) # st"] positions_nonempty[OF c(2), of "(pg, ix) # st"]
          Cursor_prev_index[OF False, of db "ix + 1" c h st] c
        by (simp add: below_child[OF c(1)] del: prev_exit.simps)
    qed
    have ents: "i \<le> ?n \<Longrightarrow> chain (Cursor_prev db) (rev (?X i)) ?e
        \<and> ?X i \<noteq> [] \<and> last (?X i) = last (?b (int i - 1))" for i
    proof (induction i)
      case 0
      then show ?case using sub[of "-1"] by simp
    next
      case (Suc i)
      then have lt: "i < ?n" and ih: "chain (Cursor_prev db) (rev (?X i)) ?e"
        "?X i \<noteq> []" "last (?X i) = last (?b (int i - 1))" by simp_all
      have s: "chain (Cursor_prev db) (rev (?b (int i))) (prev_exit ((pg, int i) # st))"
        "?b (int i) \<noteq> []"
        using sub[of "int i"] lt by simp_all
      have pv: "Cursor_prev db ((pg, int i) # st) = Some (Inr (last (?X i)))"
        using sub[of "int i - 1"] lt unfolding ih(3) by simp
      have hdo: "hd_or (rev (?X i)) ?e = last (?X i)"
        using ih(2) by (rule hd_or_rev)
      have x: "?X (Suc i) = ?X i @ ((pg, int i) # st) # ?b (int i)" by simp
      have "chain (Cursor_prev db) (rev (?b (int i)) @ ((pg, int i) # st) # rev (?X i)) ?e"
        unfolding chain_append using s(1) pv ih(1) hdo by simp
      moreover have "last (?X (Suc i)) = last (?b (int (Suc i) - 1))"
        unfolding x using s(2) by simp
      ultimately show ?case unfolding x by simp
    qed
    show ?thesis
      unfolding positions_index[OF False] using ents[of ?n] by simp
  qed
qed

section \<open>Searching: \<open>binary_search\<close>, \<open>BasePage.find\<close> and the descent of \<open>BTree.find\<close>\<close>

lemma sorted_keys_nth:
  assumes "sorted_wrt (<) (map key a)" "i \<le> j" "j < length a"
  shows "key (a ! i) \<le> key (a ! j)"
proof (cases "i = j")
  case True
  then show ?thesis by simp
next
  case False
  with assms(2) have "i < j" by simp
  then have "map key a ! i < map key a ! j"
    using assms(1,3) by (intro sorted_wrt_nth_less) simp_all
  then show ?thesis using assms(3) \<open>i < j\<close> by simp
qed

lemma bs_loop_spec:
  "sorted_wrt (<) (map key a) \<Longrightarrow> first \<le> lst \<Longrightarrow> lst \<le> length a
    \<Longrightarrow> (\<forall>j<first. key (a ! j) \<le> k)
    \<Longrightarrow> (\<forall>j. lst \<le> j \<and> j < length a \<longrightarrow> k < key (a ! j))
    \<Longrightarrow> bs_loop a k first lst \<le> length a
      \<and> (\<forall>j<bs_loop a k first lst. key (a ! j) \<le> k)
      \<and> (\<forall>j. bs_loop a k first lst \<le> j \<and> j < length a \<longrightarrow> k < key (a ! j))"
proof (induction a k first lst rule: bs_loop.induct)
  case (1 a k first lst)
  note sorted = "1.prems"(1)
  note prems = "1.prems"(2-)
  show ?case
  proof (cases "first < lst")
    case False
    with prems have fl: "first = lst" by simp
    have eq: "bs_loop a k first lst = first"
      using False by (subst bs_loop.simps) simp
    show ?thesis unfolding eq using prems fl by simp
  next
    case True
    define mid where "mid = (first + lst) div 2"
    have mid: "first \<le> mid" "mid < lst" using True by (simp_all add: mid_def)
    show ?thesis
    proof (cases "k < key (a ! mid)")
      case lt: True
      have up: "\<forall>j. mid \<le> j \<and> j < length a \<longrightarrow> k < key (a ! j)"
      proof (intro allI impI)
        fix j assume j: "mid \<le> j \<and> j < length a"
        have "key (a ! mid) \<le> key (a ! j)"
          by (rule sorted_keys_nth[OF sorted]) (use j in simp_all)
        with lt show "k < key (a ! j)" by simp
      qed
      have eq: "bs_loop a k first lst = bs_loop a k first mid"
        using True lt by (subst bs_loop.simps) (simp add: mid_def Let_def)
      have "bs_loop a k first mid \<le> length a
        \<and> (\<forall>j<bs_loop a k first mid. key (a ! j) \<le> k)
        \<and> (\<forall>j. bs_loop a k first mid \<le> j \<and> j < length a \<longrightarrow> k < key (a ! j))"
        by (rule "1.IH"(1)[OF True mid_def lt]) (use mid sorted prems up in simp_all)
      then show ?thesis unfolding eq .
    next
      case ge: False
      have lo: "\<forall>j<mid + 1. key (a ! j) \<le> k"
      proof (intro allI impI)
        fix j assume j: "j < mid + 1"
        have "key (a ! j) \<le> key (a ! mid)"
          by (rule sorted_keys_nth[OF sorted]) (use j mid prems(2) in simp_all)
        with ge show "key (a ! j) \<le> k" by simp
      qed
      have eq: "bs_loop a k first lst = bs_loop a k (mid + 1) lst"
        using True ge by (subst bs_loop.simps) (simp add: mid_def Let_def)
      have "bs_loop a k (mid + 1) lst \<le> length a
        \<and> (\<forall>j<bs_loop a k (mid + 1) lst. key (a ! j) \<le> k)
        \<and> (\<forall>j. bs_loop a k (mid + 1) lst \<le> j \<and> j < length a \<longrightarrow> k < key (a ! j))"
        by (rule "1.IH"(2)[OF True mid_def ge]) (use mid sorted prems lo in simp_all)
      then show ?thesis unfolding eq .
    qed
  qed
qed

lemma binary_search_spec:
  assumes "sorted_wrt (<) (map key a)"
  shows "-1 \<le> binary_search a k \<and> binary_search a k < int (length a)
    \<and> (\<forall>j. int j \<le> binary_search a k \<longrightarrow> key (a ! j) \<le> k)
    \<and> (\<forall>j. binary_search a k < int j \<and> j < length a \<longrightarrow> k < key (a ! j))"
proof -
  let ?r = "bs_loop a k 0 (length a)"
  have vac: "\<forall>j. length a \<le> j \<and> j < length a \<longrightarrow> k < key (a ! j)" by auto
  have r: "?r \<le> length a" "\<forall>j<?r. key (a ! j) \<le> k"
    "\<forall>j. ?r \<le> j \<and> j < length a \<longrightarrow> k < key (a ! j)"
    using bs_loop_spec[OF assms, where first=0 and lst="length a" and k=k] vac by simp_all
  have "\<And>j. int j \<le> int ?r - 1 \<Longrightarrow> j < ?r" by linarith
  moreover have "\<And>j. int ?r - 1 < int j \<Longrightarrow> ?r \<le> j" by linarith
  ultimately show ?thesis unfolding binary_search_def using r by auto
qed

lemma page_find_spec:
  assumes "sorted_wrt (<) (map key (index pg))" "page_find pg k = (act, ix)"
  shows "-1 \<le> ix \<and> (ix < int (length (index pg)) \<or> (act = Gt \<and> index pg = []))
    \<and> (\<forall>j. int j < ix \<longrightarrow> key (index pg ! j) < k)
    \<and> (\<forall>j. ix < int j \<and> j < length (index pg) \<longrightarrow> k < key (index pg ! j))
    \<and> ((act = Recurse \<and> \<not> isleaf pg \<and> (0 \<le> ix \<longrightarrow> key (index pg ! nat ix) < k))
       \<or> (act = Gt \<and> isleaf pg \<and> ix = 0 \<and> (index pg \<noteq> [] \<longrightarrow> k < key (index pg ! 0)))
       \<or> (act = Eq \<and> 0 \<le> ix \<and> key (index pg ! nat ix) = k)
       \<or> (act = Lt \<and> isleaf pg \<and> 0 \<le> ix \<and> key (index pg ! nat ix) < k))"
proof -
  let ?a = "index pg"
  let ?b = "binary_search ?a k"
  have b: "-1 \<le> ?b" "?b < int (length ?a)"
    "\<And>j. int j \<le> ?b \<Longrightarrow> key (?a ! j) \<le> k"
    "\<And>j. ?b < int j \<Longrightarrow> j < length ?a \<Longrightarrow> k < key (?a ! j)"
    using binary_search_spec[OF assms(1), of k] by auto
  show ?thesis
  proof (cases "?b < 0")
    case True
    with b(1) have bm: "?b = -1" by simp
    show ?thesis
    proof (cases "isleaf pg")
      case True
      have r: "act = Gt" "ix = 0"
        using assms(2) bm True by (simp_all add: page_find_def isindex_iff)
      have "\<And>j. 0 < int j \<Longrightarrow> j < length ?a \<Longrightarrow> k < key (?a ! j)"
        using b(4) bm by simp
      moreover have "?a \<noteq> [] \<Longrightarrow> k < key (?a ! 0)" using b(4)[of 0] bm by simp
      ultimately show ?thesis using r True by (cases "?a = []") auto
    next
      case False
      have r: "act = Recurse" "ix = -1"
        using assms(2) bm False by (simp_all add: page_find_def isindex_iff)
      have "\<And>j. -1 < int j \<Longrightarrow> j < length ?a \<Longrightarrow> k < key (?a ! j)"
        using b(4) bm by simp
      then show ?thesis using r False b(2) bm by auto
    qed
  next
    case False
    define i where "i = nat ?b"
    have i: "?b = int i" "i < length ?a" using False b(2) by (simp_all add: i_def)
    have le: "key (?a ! i) \<le> k" using b(3)[of i] i by simp
    have lo: "key (?a ! j) < key (?a ! i)" if "int j < int i" for j
    proof -
      have "map key ?a ! j < map key ?a ! i"
        using that i assms(1) by (intro sorted_wrt_nth_less) simp_all
      then show ?thesis using that i by simp
    qed
    have hi: "k < key (?a ! j)" if "int i < int j" "j < length ?a" for j
      using b(4)[of j] that i by simp
    have pf: "page_find pg k = (if key (?a ! i) = k then (Eq, int i)
        else if isindex pg then (Recurse, int i) else (Lt, int i))"
      unfolding page_find_def Let_def i(1) by simp
    have ix: "ix = int i"
      using assms(2) unfolding pf by (simp split: if_splits)
    have lo': "\<forall>j. int j < ix \<longrightarrow> key (?a ! j) < k"
    proof (intro allI impI)
      fix j assume "int j < ix"
      then have "key (?a ! j) < key (?a ! i)" using lo[of j] by (simp add: ix)
      with le show "key (?a ! j) < k" by simp
    qed
    have hi': "\<forall>j. ix < int j \<and> j < length ?a \<longrightarrow> k < key (?a ! j)"
      using hi unfolding ix by blast
    have "(act = Eq \<and> key (?a ! i) = k)
        \<or> (act = Recurse \<and> \<not> isleaf pg \<and> key (?a ! i) < k)
        \<or> (act = Lt \<and> isleaf pg \<and> key (?a ! i) < k)"
      using assms(2) le unfolding pf
      by (auto simp: isindex_iff split: if_splits)
    then show ?thesis using lo' hi' i(2) unfolding ix by auto
  qed
qed

lemma pos_key_frame [simp]: "pos_key ((pg, int i) # st) = key (index pg ! i)"
  by (simp add: pos_key_def pos_entry_def)

lemma pos_val_frame [simp]: "pos_val ((pg, int i) # st) = val (index pg ! i)"
  by (simp add: pos_val_def pos_entry_def)

lemma pos_key_leaf_positions: "map pos_key (leaf_positions pg st) = map key (index pg)"
  by (rule nth_equalityI) (simp_all add: leaf_positions_def)

lemma upt_split: "i < n \<Longrightarrow> [0..<n] = [0..<i] @ i # [Suc i..<n]"
proof -
  assume "i < n"
  then have "[0..<n] = [0..<i] @ [i..<n]"
    using upt_add_eq_append[of 0 i "n - i"] by simp
  then show ?thesis using \<open>i < n\<close> by (simp add: upt_conv_Cons)
qed

lemma find_descend_leaf:
  assumes leaf: "isleaf pg" and ne: "index pg \<noteq> []"
    and sorted: "sorted_wrt (<) (map pos_key (leaf_positions pg st))"
  shows "\<exists>act s. find_descend db k pg st = Some (Inr (act, s))
           \<and> found_at k (leaf_positions pg st) act s"
proof -
  let ?n = "length (index pg)"
  let ?f = "\<lambda>i. (pg, int i) # st"
  obtain act ix where pf: "page_find pg k = (act, ix)" by (cases "page_find pg k")
  have so: "sorted_wrt (<) (map key (index pg))"
    using sorted by (simp add: pos_key_leaf_positions)
  note spec = page_find_spec[OF so pf]
  from spec leaf ne have nr: "act \<noteq> Recurse" and ix0: "0 \<le> ix" and ixn: "ix < int ?n"
    by auto
  define i where "i = nat ix"
  have i: "ix = int i" "i < ?n" using ix0 ixn by (simp_all add: i_def)
  have fd: "find_descend db k pg st = Some (Inr (act, ?f i))"
    using pf nr by (subst find_descend.simps) (simp add: i)
  have split: "leaf_positions pg st = map ?f [0..<i] @ ?f i # map ?f [Suc i..<?n]"
    unfolding leaf_positions_def by (subst upt_split[OF i(2)]) simp
  have A: "list_all (\<lambda>a. pos_key a < k) (map ?f [0..<i])"
    using spec unfolding i by (simp add: list_all_iff)
  have B: "list_all (\<lambda>b. k < pos_key b) (map ?f [Suc i..<?n])"
    using spec unfolding i by (simp add: list_all_iff)
  have C: "(act = Eq \<and> pos_key (?f i) = k) \<or> (act = Lt \<and> pos_key (?f i) < k)
            \<or> (act = Gt \<and> k < pos_key (?f i))"
    using spec nr ne unfolding i by auto
  have "found_at k (leaf_positions pg st) act (?f i)"
    unfolding found_at_def using split A B C by blast
  with fd show ?thesis by blast
qed

lemma found_at_extend:
  assumes "found_at k P act s" "list_all (\<lambda>a. pos_key a < k) X" "list_all (\<lambda>b. k < pos_key b) Y"
  shows "found_at k (X @ P @ Y) act s"
proof -
  from assms(1) obtain A B where ab: "P = A @ s # B"
    "list_all (\<lambda>a. pos_key a < k) A" "list_all (\<lambda>b. k < pos_key b) B"
    "(act = Eq \<and> pos_key s = k) \<or> (act = Lt \<and> pos_key s < k) \<or> (act = Gt \<and> k < pos_key s)"
    unfolding found_at_def by blast
  have "X @ P @ Y = (X @ A) @ s # (B @ Y)" by (simp add: ab(1))
  moreover have "list_all (\<lambda>a. pos_key a < k) (X @ A)" using assms(2) ab(2) by simp
  moreover have "list_all (\<lambda>b. k < pos_key b) (B @ Y)" using assms(3) ab(3) by simp
  ultimately show ?thesis unfolding found_at_def using ab(4) by blast
qed

lemma ball_less_trans: "\<forall>y\<in>S. f y < (m::bytes) \<Longrightarrow> m \<le> k \<Longrightarrow> \<forall>y\<in>S. f y < k"
  by (meson less_le_trans)

lemma ball_greater_trans: "\<forall>y\<in>S. (m::bytes) < f y \<Longrightarrow> k \<le> m \<Longrightarrow> \<forall>y\<in>S. k < f y"
  by (meson le_less_trans)

lemma find_descend_spec:
  "wf_page db h pg \<Longrightarrow> sorted_wrt (<) (map pos_key (positions db h pg st))
   \<Longrightarrow> \<exists>act s. find_descend db k pg st = Some (Inr (act, s))
          \<and> found_at k (positions db h pg st) act s"
proof (induction h arbitrary: pg st)
  case 0
  then show ?case using find_descend_leaf[of pg st db k] by simp
next
  case (Suc h)
  show ?case
  proof (cases "isleaf pg")
    case True
    then show ?thesis using Suc.prems find_descend_leaf[of pg st db k] by simp
  next
    case False
    let ?n = "length (index pg)"
    let ?b = "below (positions db h) db pg st"
    let ?e = "\<lambda>i. (pg, int i) # st"
    let ?g = "\<lambda>i. ?e i # ?b (int i)"
    let ?C = "\<lambda>m. concat (map ?g [m..<?n])"
    let ?P = "positions db (Suc h) pg st"
    let ?key = "\<lambda>i. key (index pg ! i)"
    have P: "?P = ?b (-1) @ ?C 0" by (rule positions_index[OF False])
    have dec: "?C 0 = concat (map ?g [0..<i]) @ ?e i # ?b (int i) @ ?C (Suc i)" if "i < ?n" for i
      by (subst upt_split[OF that]) simp
    note sP = Suc.prems(2)
    have F1: "(\<forall>y\<in>set (?b (-1) @ concat (map ?g [0..<i])). pos_key y < ?key i)
        \<and> (\<forall>r\<in>set (?b (int i) @ ?C (Suc i)). ?key i < pos_key r)
        \<and> sorted_wrt (<) (map pos_key (?b (int i)))" if "i < ?n" for i
      using sP unfolding P dec[OF that]
      by (auto simp: sorted_wrt_append)
    have F1a: "\<forall>y\<in>set (?b (-1) @ concat (map ?g [0..<i])). pos_key y < ?key i" if "i < ?n" for i
      using F1[OF that] by (rule conjunct1)
    have F1b: "\<forall>r\<in>set (?b (int i) @ ?C (Suc i)). ?key i < pos_key r" if "i < ?n" for i
      using F1[OF that] by (elim conjE)
    have F0: "sorted_wrt (<) (map pos_key (?b (-1)))"
      using sP unfolding P by (simp add: sorted_wrt_append)
    have F3: "\<exists>j. m \<le> j \<and> j < ?n \<and> ?key j \<le> pos_key r" if "r \<in> set (?C m)" for r m
    proof -
      from that obtain j where j: "m \<le> j" "j < ?n" "r = ?e j \<or> r \<in> set (?b (int j))" by auto
      have "?key j \<le> pos_key r"
      proof (cases "r = ?e j")
        case True
        then show ?thesis by simp
      next
        case False
        with j(3) have "r \<in> set (?b (int j) @ ?C (Suc j))" by simp
        then have "?key j < pos_key r" using F1b[OF j(2)] by blast
        then show ?thesis by (rule less_imp_le)
      qed
      with j show ?thesis by blast
    qed
    have so: "sorted_wrt (<) (map key (index pg))"
      unfolding sorted_wrt_iff_nth_less
    proof (intro allI impI)
      fix i j assume ij: "i < j" "j < length (map key (index pg))"
      then have "?e j \<in> set (?C (Suc i))" by auto
      then have "?e j \<in> set (?b (int i) @ ?C (Suc i))" by simp
      moreover have "i < ?n" using ij by simp
      ultimately have "?key i < pos_key (?e j)" using F1b[of i] by blast
      then show "map key (index pg) ! i < map key (index pg) ! j" using ij by simp
    qed
    obtain act ix where pf: "page_find pg k = (act, ix)" by (cases "page_find pg k")
    note spec = page_find_spec[OF so pf]
    from spec False have ixr: "-1 \<le> ix" "ix < int ?n" by auto
    from spec False have acts: "act = Recurse \<or> act = Eq" by auto
    have hiC: "list_all (\<lambda>b. k < pos_key b) (?C m)" if "ix < int m" for m
      unfolding list_all_iff
    proof
      fix r assume "r \<in> set (?C m)"
      then obtain j where j: "m \<le> j" "j < ?n" "?key j \<le> pos_key r" using F3 by blast
      have "k < ?key j" using spec j that by auto
      with j(3) show "k < pos_key r" by simp
    qed
    show ?thesis
    proof (cases "act = Recurse")
      case True
      obtain c where c: "readchild db pg ix = Inr c" "wf_page db h c"
        using wf_page_child[OF Suc.prems(1) False ixr] by auto
      have bc: "?b ix = positions db h c ((pg, ix) # st)" by (rule below_child[OF c(1)])
      have sb: "sorted_wrt (<) (map pos_key (?b ix))"
      proof (cases "ix = -1")
        case True
        then show ?thesis using F0 by simp
      next
        case False
        then have "ix = int (nat ix)" "nat ix < ?n" using ixr by simp_all
        then show ?thesis using F1[of "nat ix"] by simp
      qed
      obtain act' s where ih: "find_descend db k c ((pg, ix) # st) = Some (Inr (act', s))"
        "found_at k (?b ix) act' s"
        using Suc.IH[OF c(2), of "(pg, ix) # st"] sb unfolding bc by blast
      have fd: "find_descend db k pg st = Some (Inr (act', s))"
        using pf True c(1) ih(1) by (subst find_descend.simps) simp
      have "found_at k ?P act' s"
      proof (cases "ix = -1")
        case True
        have "found_at k ([] @ ?b (-1) @ ?C 0) act' s"
          using ih(2) hiC[of 0] True by (intro found_at_extend) simp_all
        then show ?thesis unfolding P by simp
      next
        case False
        define i where "i = nat ix"
        have i: "ix = int i" "i < ?n" using False ixr by (simp_all add: i_def)
        have ki: "?key i < k" using spec True i by auto
        have "\<forall>y\<in>set (?b (-1) @ concat (map ?g [0..<i])). pos_key y < k"
          by (rule ball_less_trans[OF F1a[OF i(2)]]) (use ki in simp)
        then have A: "list_all (\<lambda>a. pos_key a < k) (?b (-1) @ concat (map ?g [0..<i]) @ [?e i])"
          using ki unfolding list_all_iff by simp
        have "found_at k ((?b (-1) @ concat (map ?g [0..<i]) @ [?e i]) @ ?b (int i) @ ?C (Suc i)) act' s"
          using ih(2) A hiC[of "Suc i"] i by (intro found_at_extend) simp_all
        then show ?thesis unfolding P dec[OF i(2)] by simp
      qed
      with fd show ?thesis by blast
    next
      case nr: False
      with acts have eq: "act = Eq" by simp
      with spec have ix0: "0 \<le> ix" and kk: "key (index pg ! nat ix) = k" by auto
      define i where "i = nat ix"
      have i: "ix = int i" "i < ?n" using ix0 ixr by (simp_all add: i_def)
      have fd: "find_descend db k pg st = Some (Inr (Eq, ?e i))"
        using pf eq i by (subst find_descend.simps) simp
      have "?P = (?b (-1) @ concat (map ?g [0..<i])) @ ?e i # (?b (int i) @ ?C (Suc i))"
        unfolding P dec[OF i(2)] by simp
      moreover have "list_all (\<lambda>a. pos_key a < k) (?b (-1) @ concat (map ?g [0..<i]))"
        unfolding list_all_iff
        by (rule ball_less_trans[OF F1a[OF i(2)]]) (use kk in \<open>simp add: i_def\<close>)
      moreover have "list_all (\<lambda>b. k < pos_key b) (?b (int i) @ ?C (Suc i))"
        unfolding list_all_iff
        by (rule ball_greater_trans[OF F1b[OF i(2)]]) (use kk in \<open>simp add: i_def\<close>)
      moreover have "pos_key (?e i) = k" using kk by (simp add: i_def[symmetric])
      ultimately have "found_at k ?P Eq (?e i)" unfolding found_at_def by blast
      with fd show ?thesis by blast
    qed
  qed
qed

section \<open>\<open>BTree.find\<close> on search trees\<close>

lemma valid_stack_Nil: "valid_stack []"
  by (simp add: valid_stack_def)

lemma tree_chain_next:
  assumes "wf_tree db h"
  shows "chain (Cursor_next db) (tree_positions db h) []"
proof -
  from assms obtain pg where pg: "readpage db (firstindex db) = Inr pg" "wf_page db h pg"
    by (auto simp: wf_tree_def split: sum.splits)
  show ?thesis
    using chain_next_positions[OF pg(2) valid_stack_Nil, of ] pg(1)
    by (simp add: tree_positions_def)
qed

lemma tree_chain_prev:
  assumes "wf_tree db h"
  shows "chain (Cursor_prev db) (rev (tree_positions db h)) []"
proof -
  from assms obtain pg where pg: "readpage db (firstindex db) = Inr pg" "wf_page db h pg"
    by (auto simp: wf_tree_def split: sum.splits)
  show ?thesis
    using chain_prev_positions[OF pg(2), of "[]"] pg(1)
    by (simp add: tree_positions_def)
qed

lemma filter_none: "list_all (\<lambda>x. \<not> Q x) xs \<Longrightarrow> filter Q xs = []"
  by (simp add: list_all_iff)

lemma filter_all: "list_all Q xs \<Longrightarrow> filter Q xs = xs"
  by (simp add: list_all_iff)

lemma find_none: "list_all (\<lambda>x. \<not> Q x) xs \<Longrightarrow> List.find Q xs = None"
  by (simp add: list_all_iff find_None_iff)

lemma find_append_none: "List.find Q xs = None \<Longrightarrow> List.find Q (xs @ ys) = List.find Q ys"
  by (induction xs) (auto split: if_splits)

lemma list_all_mono': "list_all Q xs \<Longrightarrow> (\<And>x. Q x \<Longrightarrow> R x) \<Longrightarrow> list_all R xs"
  by (auto simp: list_all_iff)

lemma find_finish_spec:
  assumes fa: "found_at k P act s" and r: "r \<noteq> Recurse"
    and nx: "chain (Cursor_next db) P []" and pv: "chain (Cursor_prev db) (rev P) []"
  shows "find_finish db r act s = Some (Inr (find_spec r k P))"
proof -
  from fa obtain A B where ab: "P = A @ s # B"
    and A: "list_all (\<lambda>a. pos_key a < k) A" and B: "list_all (\<lambda>b. k < pos_key b) B"
    and act: "(act = Eq \<and> pos_key s = k) \<or> (act = Lt \<and> pos_key s < k) \<or> (act = Gt \<and> k < pos_key s)"
    unfolding found_at_def by blast
  have next_s: "Cursor_next db s = Some (Inr (hd_or B []))"
    using nx unfolding ab by (rule chain_mid)
  have "chain (Cursor_prev db) (rev B @ s # rev A) []" using pv unfolding ab by simp
  then have prev_s: "Cursor_prev db s = Some (Inr (hd_or (rev A) []))"
    by (rule chain_mid)
  have A_ge: "filter (\<lambda>c. k \<le> pos_key c) A = []"
    by (rule filter_none, rule list_all_mono'[OF A]) simp
  have A_gt: "filter (\<lambda>c. k < pos_key c) A = []"
    by (rule filter_none, rule list_all_mono'[OF A]) simp
  have A_le: "filter (\<lambda>c. pos_key c \<le> k) A = A"
    by (rule filter_all, rule list_all_mono'[OF A]) simp
  have A_lt: "filter (\<lambda>c. pos_key c < k) A = A"
    by (rule filter_all, rule list_all_mono'[OF A]) simp
  have A_eq: "List.find (\<lambda>c. pos_key c = k) A = None"
    by (rule find_none, rule list_all_mono'[OF A]) simp
  have B_ge: "filter (\<lambda>c. k \<le> pos_key c) B = B"
    by (rule filter_all, rule list_all_mono'[OF B]) simp
  have B_gt: "filter (\<lambda>c. k < pos_key c) B = B"
    by (rule filter_all, rule list_all_mono'[OF B]) simp
  have B_le: "filter (\<lambda>c. pos_key c \<le> k) B = []"
    by (rule filter_none, rule list_all_mono'[OF B]) simp
  have B_lt: "filter (\<lambda>c. pos_key c < k) B = []"
    by (rule filter_none, rule list_all_mono'[OF B]) simp
  have B_eq: "List.find (\<lambda>c. pos_key c = k) B = None"
    by (rule find_none, rule list_all_mono'[OF B]) simp
  note fl = A_ge A_gt A_le A_lt B_ge B_gt B_le B_lt
  from act show ?thesis
  proof (elim disjE conjE)
    assume a: "act = Eq" "pos_key s = k"
    show ?thesis unfolding ab using r a
      by (cases r) (simp_all add: find_finish_def find_spec_def fl next_s prev_s
          find_append_none[OF A_eq] hd_or_append)
  next
    assume a: "act = Lt" "pos_key s < k"
    then have ne: "pos_key s \<noteq> k" "\<not> k \<le> pos_key s" "\<not> k < pos_key s" "pos_key s \<le> k" by auto
    show ?thesis unfolding ab using r a ne
      by (cases r) (simp_all add: find_finish_def find_spec_def fl next_s prev_s
          find_append_none[OF A_eq] B_eq hd_or_append)
  next
    assume a: "act = Gt" "k < pos_key s"
    then have ne: "pos_key s \<noteq> k" "k \<le> pos_key s" "\<not> pos_key s < k" "\<not> pos_key s \<le> k" by auto
    show ?thesis unfolding ab using r a ne
      by (cases r) (simp_all add: find_finish_def find_spec_def fl next_s prev_s
          find_append_none[OF A_eq] B_eq hd_or_append)
  qed
qed

lemma BTree_find_spec:
  assumes "search_tree db h" "r \<noteq> Recurse"
  shows "BTree_find db r k = Some (Inr (find_spec r k (tree_positions db h)))"
proof -
  from assms(1) have wf: "wf_tree db h" and so: "sorted_wrt (<) (tree_keys db h)"
    by (simp_all add: search_tree_def)
  from wf obtain pg where pg: "readpage db (firstindex db) = Inr pg" "wf_page db h pg"
    by (auto simp: wf_tree_def split: sum.splits)
  have P: "tree_positions db h = positions db h pg []"
    using pg(1) by (simp add: tree_positions_def)
  have "sorted_wrt (<) (map pos_key (positions db h pg []))"
    using so by (simp add: tree_keys_def P)
  then obtain act s where d: "find_descend db k pg [] = Some (Inr (act, s))"
    "found_at k (positions db h pg []) act s"
    using find_descend_spec[OF pg(2), of "[]" k] by blast
  have "find_finish db r act s = Some (Inr (find_spec r k (tree_positions db h)))"
    using d(2) assms(2) tree_chain_next[OF wf] tree_chain_prev[OF wf] unfolding P
    by (rule find_finish_spec)
  then show ?thesis using pg(1) d(1) by (simp add: BTree_find_def)
qed

section \<open>Cursors at records, scans and round trips\<close>

lemma positions_shape:
  "c \<in> set (positions db h pg st) \<Longrightarrow> \<exists>pg' i st'. c = (pg', int i) # st' \<and> i < length (index pg')"
proof (induction h arbitrary: pg st c)
  case 0
  then show ?case by (auto simp: leaf_positions_def split: if_splits)
next
  case (Suc h)
  show ?case
  proof (cases "isleaf pg")
    case True
    then show ?thesis using Suc.prems by (auto simp: leaf_positions_def)
  next
    case False
    have b: "\<exists>pg' i st'. c = (pg', int i) # st' \<and> i < length (index pg')"
      if "c \<in> set (below (positions db h) db pg st ix)" for ix
      using that Suc.IH by (auto simp: below_def split: sum.splits)
    from Suc.prems False
    consider "c \<in> set (below (positions db h) db pg st (-1))"
      | i where "i < length (index pg)" "c = (pg, int i) # st"
      | i where "c \<in> set (below (positions db h) db pg st (int i))"
      by auto
    then show ?thesis
    proof cases
      case 1
      then show ?thesis by (rule b)
    next
      case 2
      then show ?thesis by blast
    next
      case 3
      then show ?thesis by (rule b)
    qed
  qed
qed

lemma tree_positions_shape:
  assumes "c \<in> set (tree_positions db h)"
  shows "\<exists>pg' i st'. c = (pg', int i) # st' \<and> i < length (index pg')"
  using assms positions_shape
  by (auto simp: tree_positions_def split: sum.splits)

lemma cursor_at_position:
  assumes "c \<in> set (tree_positions db h)"
  shows "\<not> eof c \<and> Cursor_getkey c = Inr (pos_key c) \<and> Cursor_getval c = Inr (pos_val c)"
proof -
  from tree_positions_shape[OF assms] obtain pg i st
    where c: "c = (pg, int i) # st" "i < length (index pg)" by blast
  show ?thesis
    using c(2) unfolding c(1)
    by (simp add: eof_def Cursor_getkey_def Cursor_getval_def getkey_def getval_def py_nth_def)
qed

lemma scan_chain:
  assumes "\<And>c. c \<in> set cs \<Longrightarrow> \<not> eof c \<and> Cursor_getkey c = Inr (pos_key c) \<and> Cursor_getval c = Inr (pos_val c)"
    and "chain move cs []"
  shows "scan move (hd_or cs []) acc = Some (Inr (acc @ map pos_record cs))"
  using assms
proof (induction cs arbitrary: acc)
  case Nil
  show ?case by (subst scan.simps) (simp add: eof_def)
next
  case (Cons c cs)
  have c: "\<not> eof c" "Cursor_getkey c = Inr (pos_key c)" "Cursor_getval c = Inr (pos_val c)"
    using Cons.prems(1)[of c] by simp_all
  have mv: "move c = Some (Inr (hd_or cs []))" and ch: "chain move cs []"
    using Cons.prems(2) by simp_all
  have "scan move c acc = scan move (hd_or cs []) (acc @ [pos_record c])"
    using c mv by (subst scan.simps) (simp add: pos_record_def)
  also have "\<dots> = Some (Inr ((acc @ [pos_record c]) @ map pos_record cs))"
    using Cons.prems(1) ch by (intro Cons.IH) simp_all
  finally show ?case by simp
qed

lemma tree_positions_nonempty: "wf_tree db h \<Longrightarrow> tree_positions db h \<noteq> []"
  using positions_nonempty
  by (auto simp: wf_tree_def tree_positions_def split: sum.splits)

lemma tree_records_alt: "tree_records db h = map pos_record (tree_positions db h)"
  by (simp add: tree_records_def pos_record_def)

lemma find_ge_empty_key:
  "find_spec Ge [] P = Some (hd_or P [])"
  by (simp add: find_spec_def)

lemma full_scan_search_tree:
  assumes "search_tree db h"
  shows "full_scan db = Some (Inr (tree_records db h))"
proof -
  from assms have wf: "wf_tree db h" by (simp add: search_tree_def)
  have f: "BTree_find db Ge [] = Some (Inr (Some (hd_or (tree_positions db h) [])))"
    using BTree_find_spec[OF assms, of Ge "[]"] by (simp add: find_ge_empty_key)
  have "scan (Cursor_next db) (hd_or (tree_positions db h) []) []
      = Some (Inr ([] @ map pos_record (tree_positions db h)))"
    using cursor_at_position tree_chain_next[OF wf] by (intro scan_chain) blast+
  then show ?thesis by (simp add: full_scan_def f tree_records_alt)
qed

lemma backward_scan_wf_tree:
  assumes "wf_tree db h"
  shows "scan (Cursor_prev db) (last (tree_positions db h)) [] = Some (Inr (rev (tree_records db h)))"
proof -
  let ?P = "tree_positions db h"
  have ne: "?P \<noteq> []" by (rule tree_positions_nonempty[OF assms])
  have "scan (Cursor_prev db) (hd_or (rev ?P) []) [] = Some (Inr ([] @ map pos_record (rev ?P)))"
    using cursor_at_position[of _ db h] tree_chain_prev[OF assms] by (intro scan_chain) simp_all
  then show ?thesis using ne by (simp add: hd_or_rev tree_records_alt rev_map)
qed

lemma next_prev_adjacent:
  assumes "wf_tree db h" "tree_positions db h = A @ c # c' # B"
  shows "Cursor_next db c = Some (Inr c') \<and> Cursor_prev db c' = Some (Inr c)"
proof -
  have "Cursor_next db c = Some (Inr (hd_or (c' # B) []))"
    using tree_chain_next[OF assms(1)] unfolding assms(2) by (rule chain_mid)
  moreover have "chain (Cursor_prev db) (rev B @ c' # (c # rev A)) []"
    using tree_chain_prev[OF assms(1)] unfolding assms(2) by simp
  then have "Cursor_prev db c' = Some (Inr (hd_or (c # rev A) []))" by (rule chain_mid)
  ultimately show ?thesis by simp
qed

lemma split_not_last:
  assumes "c \<in> set P" "c \<noteq> last P"
  shows "\<exists>A c' B. P = A @ c # c' # B"
proof -
  from assms(1) obtain A R where ar: "P = A @ c # R" by (meson split_list)
  have "R \<noteq> []" using assms(2) ar by auto
  then obtain c' B where "R = c' # B" by (cases R) auto
  with ar show ?thesis by blast
qed

lemma split_not_first:
  assumes "c \<in> set P" "c \<noteq> hd P"
  shows "\<exists>A c' B. P = A @ c' # c # B"
proof -
  from assms(1) obtain L B where lb: "P = L @ c # B" by (meson split_list)
  have "L \<noteq> []" using assms(2) lb by auto
  then obtain A c' where "L = A @ [c']" by (cases L rule: rev_cases) auto
  with lb show ?thesis by auto
qed

lemma Cursor_next_last:
  assumes "wf_tree db h"
  shows "Cursor_next db (last (tree_positions db h)) = Some (Inr [])"
proof -
  let ?P = "tree_positions db h"
  have "?P = butlast ?P @ last ?P # []" using tree_positions_nonempty[OF assms] by simp
  then have "chain (Cursor_next db) (butlast ?P @ last ?P # []) []"
    using tree_chain_next[OF assms] by simp
  then have "Cursor_next db (last ?P) = Some (Inr (hd_or [] []))" by (rule chain_mid)
  then show ?thesis by simp
qed

lemma Cursor_prev_first:
  assumes "wf_tree db h"
  shows "Cursor_prev db (hd (tree_positions db h)) = Some (Inr [])"
proof -
  let ?P = "tree_positions db h"
  have "?P = hd ?P # tl ?P" using tree_positions_nonempty[OF assms] by simp
  then have "rev ?P = rev (tl ?P) @ hd ?P # []" by (metis rev.simps(2))
  then have "chain (Cursor_prev db) (rev (tl ?P) @ hd ?P # []) []"
    using tree_chain_prev[OF assms] by simp
  then have "Cursor_prev db (hd ?P) = Some (Inr (hd_or [] []))" by (rule chain_mid)
  then show ?thesis by simp
qed

section \<open>The keys of an index page and the subtrees below it\<close>

lemma pos_key_positions_stack:
  "map pos_key (positions db h pg st) = map pos_key (positions db h pg st')"
proof (induction h arbitrary: pg st st')
  case 0
  show ?case by (simp add: pos_key_leaf_positions)
next
  case (Suc h)
  show ?case
  proof (cases "isleaf pg")
    case True
    then show ?thesis by (simp add: pos_key_leaf_positions)
  next
    case False
    have b: "map pos_key (below (positions db h) db pg st ix)
        = map pos_key (below (positions db h) db pg st' ix)" for ix
      using Suc.IH by (simp add: below_def split: sum.splits)
    show ?thesis
      unfolding positions_index[OF False] map_append map_concat map_map
      by (intro arg_cong2[where f="(@)"] b arg_cong[where f=concat] map_cong refl) (simp add: b)
  qed
qed

lemma subtree_keys_positions: "subtree_keys db h pg = map pos_key (positions db h pg st)"
  unfolding subtree_keys_def by (rule pos_key_positions_stack)

lemma index_page_order:
  assumes wf: "wf_page db (Suc h) pg" and idx: "\<not> isleaf pg"
    and so: "sorted_wrt (<) (map pos_key (positions db (Suc h) pg st))"
  shows "(\<forall>i c. i < length (index pg) \<and> readchild db pg (int i) = Inr c \<longrightarrow>
            sorted_wrt (<) (subtree_keys db h c)
            \<and> (\<forall>k'\<in>set (subtree_keys db h c). key (index pg ! i) < k'
                  \<and> (Suc i < length (index pg) \<longrightarrow> k' < key (index pg ! Suc i))))
       \<and> (\<forall>c. readchild db pg (-1) = Inr c \<longrightarrow>
            sorted_wrt (<) (subtree_keys db h c)
            \<and> (\<forall>k'\<in>set (subtree_keys db h c). \<forall>i < length (index pg). k' < key (index pg ! i)))"
proof -
  let ?n = "length (index pg)"
  let ?b = "below (positions db h) db pg st"
  let ?e = "\<lambda>i. (pg, int i) # st"
  let ?g = "\<lambda>i. ?e i # ?b (int i)"
  let ?C = "\<lambda>m. concat (map ?g [m..<?n])"
  let ?key = "\<lambda>i. key (index pg ! i)"
  have P: "positions db (Suc h) pg st = ?b (-1) @ ?C 0" by (rule positions_index[OF idx])
  have dec: "?C 0 = concat (map ?g [0..<i]) @ ?e i # ?b (int i) @ ?C (Suc i)" if "i < ?n" for i
    by (subst upt_split[OF that]) simp
  have F1: "(\<forall>y\<in>set (?b (-1) @ concat (map ?g [0..<i])). pos_key y < ?key i)
      \<and> (\<forall>r\<in>set (?b (int i) @ ?C (Suc i)). ?key i < pos_key r)
      \<and> sorted_wrt (<) (map pos_key (?b (int i)))" if "i < ?n" for i
    using so unfolding P dec[OF that] by (auto simp: sorted_wrt_append)
  have F0: "sorted_wrt (<) (map pos_key (?b (-1)))"
    using so unfolding P by (simp add: sorted_wrt_append)
  have sk: "subtree_keys db h c = map pos_key (?b ix)" if "readchild db pg ix = Inr c" for ix c
    unfolding below_child[OF that] by (rule subtree_keys_positions)
  have part1: "sorted_wrt (<) (subtree_keys db h c)
        \<and> (\<forall>k'\<in>set (subtree_keys db h c). ?key i < k' \<and> (Suc i < ?n \<longrightarrow> k' < ?key (Suc i)))"
    if i: "i < ?n" and c: "readchild db pg (int i) = Inr c" for i c
  proof (intro conjI ballI impI)
    show "sorted_wrt (<) (subtree_keys db h c)" using F1[OF i] by (simp add: sk[OF c])
  next
    fix k' assume "k' \<in> set (subtree_keys db h c)"
    then obtain r where r: "r \<in> set (?b (int i))" "k' = pos_key r"
      unfolding sk[OF c] by auto
    then have "r \<in> set (?b (int i) @ ?C (Suc i))" by simp
    then show "?key i < k'" using F1[OF i] r(2) by blast
    assume s: "Suc i < ?n"
    have "?C 0 = concat (map ?g [0..<Suc i]) @ ?e (Suc i) # ?b (int (Suc i)) @ ?C (Suc (Suc i))"
      by (rule dec[OF s])
    then have "r \<in> set (?b (-1) @ concat (map ?g [0..<Suc i]))" using r(1) by simp
    then show "k' < ?key (Suc i)" using F1[OF s] r(2) by blast
  qed
  have part2: "sorted_wrt (<) (subtree_keys db h c)
        \<and> (\<forall>k'\<in>set (subtree_keys db h c). \<forall>i < ?n. k' < ?key i)"
    if c: "readchild db pg (-1) = Inr c" for c
  proof (intro conjI ballI allI impI)
    show "sorted_wrt (<) (subtree_keys db h c)" using F0 by (simp add: sk[OF c])
  next
    fix k' i assume "k' \<in> set (subtree_keys db h c)" and i: "i < ?n"
    then obtain r where r: "r \<in> set (?b (-1))" "k' = pos_key r"
      unfolding sk[OF c] by auto
    then have "r \<in> set (?b (-1) @ concat (map ?g [0..<i]))" by simp
    then show "k' < ?key i" using F1[OF i] r(2) by blast
  qed
  show ?thesis using part1 part2 by blast
qed

lemma subpages_order:
  "wf_page db h root \<Longrightarrow> sorted_wrt (<) (subtree_keys db h root)
   \<Longrightarrow> (Suc h', pg) \<in> set (subpages db h root) \<Longrightarrow> \<not> isleaf pg
   \<Longrightarrow> wf_page db (Suc h') pg \<and> sorted_wrt (<) (subtree_keys db (Suc h') pg)"
proof (induction h arbitrary: root)
  case 0
  then show ?case by simp
next
  case (Suc h)
  show ?case
  proof (cases "(Suc h', pg) = (Suc h, root)")
    case True
    then show ?thesis using Suc.prems by simp
  next
    case False
    with Suc.prems(3) have nl: "\<not> isleaf root" by (auto split: if_splits)
    from Suc.prems(3) False nl
    have "\<exists>ix\<in>set (-1 # map int [0..<length (index root)]).
        (Suc h', pg) \<in> set (case readchild db root ix of Inl err \<Rightarrow> [] | Inr c \<Rightarrow> subpages db h c)"
      by (simp del: set_simps set_map) (use False in auto)
    then obtain ix where ix0: "ix \<in> set (-1 # map int [0..<length (index root)])"
      and m0: "(Suc h', pg) \<in> set (case readchild db root ix of Inl err \<Rightarrow> [] | Inr c \<Rightarrow> subpages db h c)"
      by blast
    from m0 obtain c where c: "readchild db root ix = Inr c" and mem: "(Suc h', pg) \<in> set (subpages db h c)"
      by (cases "readchild db root ix") simp_all
    from ix0 have ix: "ix = -1 \<or> (\<exists>i < length (index root). ix = int i)" by auto
    have r: "-1 \<le> ix" "ix < int (length (index root))" using ix by auto
    obtain c' where c': "readchild db root ix = Inr c'" "wf_page db h c'"
      using wf_page_child[OF Suc.prems(1) nl r] by auto
    with c have wfc: "wf_page db h c" by simp
    have so: "sorted_wrt (<) (map pos_key (positions db (Suc h) root []))"
      using Suc.prems(2) by (simp add: subtree_keys_def)
    note io = index_page_order[OF Suc.prems(1) nl so]
    have "sorted_wrt (<) (subtree_keys db h c)"
      using io ix c by auto
    then show ?thesis using Suc.IH[OF wfc _ mem Suc.prems(4)] by simp
  qed
qed

section \<open>The typed overlay on search trees\<close>

lemma map_of_find:
  "map_of (map (\<lambda>c. (f c, g c)) P) k = map_option g (List.find (\<lambda>c. f c = k) P)"
  by (induction P) auto

lemma tree_records_lookup:
  "map_of (tree_records db h) k
     = map_option pos_val (List.find (\<lambda>c. pos_key c = k) (tree_positions db h))"
  unfolding tree_records_def by (rule map_of_find)

lemma find_eq_cases:
  assumes "search_tree db h"
  shows "(map_of (tree_records db h) k = None \<and> BTree_find db Eq k = Some (Inr None))
       \<or> (\<exists>c. map_of (tree_records db h) k = Some (pos_val c) \<and> pos_key c = k
              \<and> c \<in> set (tree_positions db h)
              \<and> BTree_find db Eq k = Some (Inr (Some c)) \<and> Cursor_getval c = Inr (pos_val c)
              \<and> Cursor_getkey c = Inr k)"
proof (cases "List.find (\<lambda>c. pos_key c = k) (tree_positions db h)")
  case None
  then show ?thesis
    using BTree_find_spec[OF assms, of Eq k] by (simp add: tree_records_lookup find_spec_def)
next
  case (Some c)
  then have c: "c \<in> set (tree_positions db h)" "pos_key c = k"
    by (auto simp: find_Some_iff)
  show ?thesis
    using BTree_find_spec[OF assms, of Eq k] Some c cursor_at_position[OF c(1)]
    by (simp add: tree_records_lookup find_spec_def)
qed

lemma makekey_not_cursor: "makekey self [PCursor cur] = Inl StructError"
  by (simp add: makekey_def pack_unsigned_def)

lemma ID0File_bytes_spec:
  assumes "search_tree (btree self) h" "makekey self args = Inr k"
  shows "ID0File_bytes self args = Some (Inr (map_of (tree_records (btree self) h) k))"
proof -
  have nc: "\<And>cur. args \<noteq> [PCursor cur]" using assms(2) makekey_not_cursor by auto
  have "ID0File_bytes self args =
     (case BTree_find (btree self) Eq k of
                None \<Rightarrow> None
              | Some (Inl err) \<Rightarrow> Some (Inl err)
              | Some (Inr None) \<Rightarrow> Some (Inr None)
              | Some (Inr (Some cur)) \<Rightarrow> value_at cur)"
    using nc assms(2)
    by (auto simp: ID0File_bytes_def split: list.splits pyarg.splits)
  then show ?thesis
    using find_eq_cases[OF assms(1), of k] by (auto simp: value_at_def)
qed

lemma ID0File_int_spec:
  assumes "search_tree (btree self) h" "makekey self args = Inr k"
  shows "ID0File_int self args =
     Some (Inr (case map_of (tree_records (btree self) h) k of
                  None \<Rightarrow> None
                | Some v \<Rightarrow> if length v \<in> {1, 2, 4, 8} then Some (le_nat v) else None))"
  unfolding ID0File_int_def ID0File_bytes_spec[OF assms]
  by (simp split: option.splits)

lemma unpack_one:
  "unpack [c] v = (if length v = calcsize1 c then Inr [le_nat v] else Inl StructError)"
  by (simp add: unpack_def calcsize_def)

lemma nodeByName_spec:
  assumes "search_tree (btree self) h"
  shows "nodeByName self name =
     (case map_of (tree_records (btree self) h) (0x4e # name) of
        None \<Rightarrow> Some (Inr None)
      | Some v \<Rightarrow> if length v = calcsize1 (fmt self) then Some (Inr (Some (le_nat v)))
                  else Some (Inl StructError))"
  using find_eq_cases[OF assms, of "0x4e # name"]
  by (auto simp: nodeByName_def unpack_one)

subsection \<open>\<open>blob\<close>\<close>

lemma append_less_append: "(xs @ ys < xs @ zs) = (ys < (zs :: bytes))"
  by (induction xs) simp_all

lemma nextkey_greater:
  assumes "nextkey k = Inr e"
  shows "k < e"
proof -
  from assms have ne: "k \<noteq> []" and le: "unat (last k) + 1 \<le> 255"
    and e: "e = butlast k @ [of_nat (unat (last k) + 1)]"
    by (auto simp: nextkey_def split: if_splits)
  have "unat (of_nat (unat (last k) + 1) :: byte) = unat (last k) + 1"
    by (rule of_nat_inverse[OF refl]) (use le in simp)
  then have "last k < (of_nat (unat (last k) + 1) :: byte)"
    by (simp add: word_less_nat_alt)
  then have "butlast k @ [last k] < butlast k @ [of_nat (unat (last k) + 1)]"
    unfolding append_less_append by simp
  then show ?thesis using ne e by simp
qed

lemma blob_loop_chain:
  assumes "\<And>c. c \<in> set cs \<Longrightarrow> Cursor_getkey c = Inr (pos_key c) \<and> Cursor_getval c = Inr (pos_val c)"
    and "chain (Cursor_next db) cs []"
  shows "blob_loop db endkey (hd_or cs []) data =
     (if list_all (\<lambda>c. pos_key c < endkey) cs then Some (Inl IndexError)
      else Some (Inr (data @ concat (map pos_val (takeWhile (\<lambda>c. pos_key c < endkey) cs)))))"
  using assms
proof (induction cs arbitrary: data)
  case Nil
  show ?case by (subst blob_loop.simps) (simp add: Cursor_getkey_def)
next
  case (Cons c cs)
  have c: "Cursor_getkey c = Inr (pos_key c)" "Cursor_getval c = Inr (pos_val c)"
    using Cons.prems(1)[of c] by simp_all
  have mv: "Cursor_next db c = Some (Inr (hd_or cs []))" and ch: "chain (Cursor_next db) cs []"
    using Cons.prems(2) by simp_all
  show ?case
  proof (cases "pos_key c < endkey")
    case True
    have "blob_loop db endkey c data = blob_loop db endkey (hd_or cs []) (data @ pos_val c)"
      using c mv True by (subst blob_loop.simps) simp
    also have "\<dots> = (if list_all (\<lambda>c. pos_key c < endkey) cs then Some (Inl IndexError)
      else Some (Inr ((data @ pos_val c) @ concat (map pos_val (takeWhile (\<lambda>c. pos_key c < endkey) cs)))))"
      using Cons.prems(1) ch by (intro Cons.IH) simp_all
    finally show ?thesis using True by simp
  next
    case False
    then show ?thesis using c by (subst blob_loop.simps) simp
  qed
qed

lemma sorted_filter_takeWhile:
  "sorted_wrt (<) (map f xs) \<Longrightarrow> filter (\<lambda>x. f x < (hi::bytes)) xs = takeWhile (\<lambda>x. f x < hi) xs"
proof (induction xs)
  case Nil
  then show ?case by simp
next
  case (Cons x xs)
  show ?case
  proof (cases "f x < hi")
    case True
    then show ?thesis using Cons by simp
  next
    case False
    have "\<forall>y\<in>set xs. \<not> f y < hi"
    proof
      fix y assume "y \<in> set xs"
      then have "f x < f y" using Cons.prems by auto
      with False show "\<not> f y < hi" by auto
    qed
    then have "filter (\<lambda>x. f x < hi) xs = []" by (simp add: filter_empty_conv)
    then show ?thesis using False by simp
  qed
qed

lemma sorted_filter_suffix:
  "sorted_wrt (<) (map f xs) \<Longrightarrow>
   \<exists>A. xs = A @ filter (\<lambda>x. (lo::bytes) \<le> f x) xs \<and> list_all (\<lambda>x. \<not> lo \<le> f x) A"
proof (induction xs)
  case Nil
  then show ?case by simp
next
  case (Cons x xs)
  show ?case
  proof (cases "lo \<le> f x")
    case True
    have "\<forall>y\<in>set xs. lo \<le> f y"
    proof
      fix y assume "y \<in> set xs"
      then have "f x < f y" using Cons.prems by auto
      with True show "lo \<le> f y" by auto
    qed
    then have "filter (\<lambda>x. lo \<le> f x) xs = xs" by (simp add: filter_id_conv)
    then have "x # xs = [] @ filter (\<lambda>x. lo \<le> f x) (x # xs)" using True by simp
    moreover have "list_all (\<lambda>x. \<not> lo \<le> f x) []" by simp
    ultimately show ?thesis by blast
  next
    case False
    from Cons obtain A where A: "xs = A @ filter (\<lambda>x. lo \<le> f x) xs" "list_all (\<lambda>x. \<not> lo \<le> f x) A"
      by auto
    have "x # xs = (x # A) @ filter (\<lambda>x. lo \<le> f x) (x # xs)" using A(1) False by simp
    moreover have "list_all (\<lambda>x. \<not> lo \<le> f x) (x # A)" using A(2) False by simp
    ultimately show ?thesis by blast
  qed
qed

lemma blob_spec:
  assumes st: "search_tree (btree self) h" and mk: "makekey self args = Inr startkey"
    and nk: "nextkey startkey = Inr endkey"
  shows "blob self args =
     (if \<exists>k\<in>set (tree_keys (btree self) h). endkey \<le> k
      then Some (Inr (concat (map snd (records_between startkey endkey (tree_records (btree self) h)))))
      else Some (Inl IndexError))"
proof -
  let ?db = "btree self"
  let ?P = "tree_positions ?db h"
  let ?S = "filter (\<lambda>c. startkey \<le> pos_key c) ?P"
  from st have wf: "wf_tree ?db h" and so: "sorted_wrt (<) (map pos_key ?P)"
    by (simp_all add: search_tree_def tree_keys_def)
  obtain A where A: "?P = A @ ?S" "list_all (\<lambda>x. \<not> startkey \<le> pos_key x) A"
    using sorted_filter_suffix[OF so, of startkey] by blast
  have soS: "sorted_wrt (<) (map pos_key ?S)"
    using so by (subst (asm) A(1)) (simp add: sorted_wrt_append)
  have chS: "chain (Cursor_next ?db) ?S []"
    using tree_chain_next[OF wf] by (subst (asm) A(1)) (simp add: chain_append)
  have f: "BTree_find ?db Ge startkey = Some (Inr (Some (hd_or ?S [])))"
    using BTree_find_spec[OF st, of Ge startkey] by (simp add: find_spec_def)
  have lp: "blob_loop ?db endkey (hd_or ?S []) [] =
     (if list_all (\<lambda>c. pos_key c < endkey) ?S then Some (Inl IndexError)
      else Some (Inr ([] @ concat (map pos_val (takeWhile (\<lambda>c. pos_key c < endkey) ?S)))))"
    using cursor_at_position[of _ ?db h] chS by (intro blob_loop_chain) simp_all
  have lt: "startkey < endkey" by (rule nextkey_greater[OF nk])
  have ex: "(\<exists>k\<in>set (tree_keys ?db h). endkey \<le> k) = (\<not> list_all (\<lambda>c. pos_key c < endkey) ?S)"
  proof
    assume "\<exists>k\<in>set (tree_keys ?db h). endkey \<le> k"
    then obtain c where c: "c \<in> set ?P" "endkey \<le> pos_key c" by (auto simp: tree_keys_def)
    then have "startkey \<le> pos_key c" using lt by auto
    with c have "c \<in> set ?S" "\<not> pos_key c < endkey" by auto
    then show "\<not> list_all (\<lambda>c. pos_key c < endkey) ?S" by (auto simp: list_all_iff)
  next
    assume "\<not> list_all (\<lambda>c. pos_key c < endkey) ?S"
    then obtain c where "c \<in> set ?S" "\<not> pos_key c < endkey" by (auto simp: list_all_iff)
    then have "c \<in> set ?P" "endkey \<le> pos_key c" by auto
    then show "\<exists>k\<in>set (tree_keys ?db h). endkey \<le> k" by (auto simp: tree_keys_def)
  qed
  have tw: "takeWhile (\<lambda>c. pos_key c < endkey) ?S = filter (\<lambda>c. startkey \<le> pos_key c \<and> pos_key c < endkey) ?P"
    using sorted_filter_takeWhile[OF soS, of endkey] by (simp add: conj_commute)
  have rb: "map snd (records_between startkey endkey (tree_records ?db h))
      = map pos_val (filter (\<lambda>c. startkey \<le> pos_key c \<and> pos_key c < endkey) ?P)"
    by (simp add: records_between_def tree_records_def filter_map comp_def)
  have "blob self args = blob_loop ?db endkey (hd_or ?S []) []"
    by (simp add: blob_def mk nk f)
  then show ?thesis unfolding lp ex tw rb by simp
qed

section \<open>Example databases\<close>

text \<open>
  A section of four pages of 64 bytes in the v1.6 layout: the header, the root (page 1,
  an index page with the preceding page 2 and one entry with the page 3) and two leaves
  with two records each.  The five records are three values under the keys
  \<open>'.' + 0xFF000001 + 'S' + 0, 1, 2\<close> (the last one is the entry of the root), a value
  under \<open>'.' + 0xFF000001 + 'T' + 0\<close>, and the name \<open>Nfoo\<close> with the node 0xFF000001.
\<close>

definition ex_sec :: bytes where
  "ex_sec =
    [0x00, 0x00, 0x00, 0x00, 0x40, 0x00, 0x01, 0x00, 0x00, 0x00, 0x05, 0x00, 0x00, 0x00, 0x04, 0x00,
     0x00, 0x00, 0x00, 0x42, 0x2d, 0x74, 0x72, 0x65, 0x65, 0x20, 0x76, 0x20, 0x31, 0x2e, 0x36, 0x20,
     0x28, 0x43, 0x29, 0x20, 0x50, 0x6f, 0x6c, 0x20, 0x31, 0x39, 0x39, 0x30, 0x00, 0x00, 0x00, 0x00,
     0x00, 0x00, 0x00, 0x00, 0x00, 0x00, 0x00, 0x00, 0x00, 0x00, 0x00, 0x00, 0x00, 0x00, 0x00, 0x00,
     0x02, 0x00, 0x00, 0x00, 0x01, 0x00, 0x03, 0x00, 0x00, 0x00, 0x12, 0x00, 0x00, 0x00, 0x00, 0x00,
     0x24, 0x00, 0x00, 0x0a, 0x00, 0x2e, 0xff, 0x00, 0x00, 0x01, 0x53, 0x00, 0x00, 0x00, 0x02, 0x03,
     0x00, 0x78, 0x79, 0x7a, 0x00, 0x00, 0x00, 0x00, 0x00, 0x00, 0x00, 0x00, 0x00, 0x00, 0x00, 0x00,
     0x00, 0x00, 0x00, 0x00, 0x00, 0x00, 0x00, 0x00, 0x00, 0x00, 0x00, 0x00, 0x00, 0x00, 0x00, 0x00,
     0x00, 0x00, 0x00, 0x00, 0x02, 0x00, 0x00, 0x00, 0x00, 0x00, 0x18, 0x00, 0x09, 0x00, 0x00, 0x00,
     0x2b, 0x00, 0x00, 0x00, 0x00, 0x00, 0x33, 0x00, 0x00, 0x0a, 0x00, 0x2e, 0xff, 0x00, 0x00, 0x01,
     0x53, 0x00, 0x00, 0x00, 0x00, 0x04, 0x00, 0x2a, 0x00, 0x00, 0x00, 0x00, 0x01, 0x00, 0x01, 0x02,
     0x00, 0x41, 0x42, 0x00, 0x00, 0x00, 0x00, 0x00, 0x00, 0x00, 0x00, 0x00, 0x00, 0x00, 0x00, 0x00,
     0x00, 0x00, 0x00, 0x00, 0x02, 0x00, 0x00, 0x00, 0x00, 0x00, 0x18, 0x00, 0x00, 0x00, 0x00, 0x00,
     0x28, 0x00, 0x00, 0x00, 0x00, 0x00, 0x35, 0x00, 0x00, 0x0a, 0x00, 0x2e, 0xff, 0x00, 0x00, 0x01,
     0x54, 0x00, 0x00, 0x00, 0x00, 0x01, 0x00, 0x07, 0x00, 0x04, 0x00, 0x4e, 0x66, 0x6f, 0x6f, 0x04,
     0x00, 0x01, 0x00, 0x00, 0xff, 0x00, 0x00, 0x00, 0x00, 0x00, 0x00, 0x00, 0x00, 0x00, 0x00, 0x00]"

definition ex_db :: BTree where
  "ex_db = \<lparr>secdata = ex_sec, seclen = 256, version = 16, layout_of = Page16, firstfree = 0,
            pagesize = 64, firstindex = 1, reccount = 5, pagecount = 4\<rparr>"

definition ex_root :: BasePage where
  "ex_root = \<lparr>preceeding = 2, count = 1,
      index = [IndexEntry 3 [0x2e, 0xff, 0x00, 0x00, 0x01, 0x53, 0x00, 0x00, 0x00, 0x02] [0x78, 0x79, 0x7a]],
      page_unknown = 0, freeptr = 36\<rparr>"

definition ex_leaf2 :: BasePage where
  "ex_leaf2 = \<lparr>preceeding = 0, count = 2,
      index = [LeafEntry 0 0 0 [0x2e, 0xff, 0x00, 0x00, 0x01, 0x53, 0x00, 0x00, 0x00, 0x00] [0x2a, 0x00, 0x00, 0x00],
               LeafEntry 9 0 0 [0x2e, 0xff, 0x00, 0x00, 0x01, 0x53, 0x00, 0x00, 0x00, 0x01] [0x41, 0x42]],
      page_unknown = 0, freeptr = 51\<rparr>"

definition ex_leaf3 :: BasePage where
  "ex_leaf3 = \<lparr>preceeding = 0, count = 2,
      index = [LeafEntry 0 0 0 [0x2e, 0xff, 0x00, 0x00, 0x01, 0x54, 0x00, 0x00, 0x00, 0x00] [0x07],
               LeafEntry 0 0 0 [0x4e, 0x66, 0x6f, 0x6f] [0x01, 0x00, 0x00, 0xff]],
      page_unknown = 0, freeptr = 53\<rparr>"

definition ex_id0 :: ID0File where
  "ex_id0 = \<lparr>btree = ex_db, wordsize = 4, fmt = fL, nodebase = 0xFF000000\<rparr>"

text \<open>The cursors of the five records, in the order of the tree.\<close>

definition ex_positions :: "cursor list" where
  "ex_positions =
     [[(ex_leaf2, 0), (ex_root, -1)], [(ex_leaf2, 1), (ex_root, -1)], [(ex_root, 0)],
      [(ex_leaf3, 0), (ex_root, 0)], [(ex_leaf3, 1), (ex_root, 0)]]"

definition ex_records :: "(bytes \<times> bytes) list" where
  "ex_records =
     [([0x2e, 0xff, 0x00, 0x00, 0x01, 0x53, 0x00, 0x00, 0x00, 0x00], [0x2a, 0x00, 0x00, 0x00]),
      ([0x2e, 0xff, 0x00, 0x00, 0x01, 0x53, 0x00, 0x00, 0x00, 0x01], [0x41, 0x42]),
      ([0x2e, 0xff, 0x00, 0x00, 0x01, 0x53, 0x00, 0x00, 0x00, 0x02], [0x78, 0x79, 0x7a]),
      ([0x2e, 0xff, 0x00, 0x00, 0x01, 0x54, 0x00, 0x00, 0x00, 0x00], [0x07]),
      ([0x4e, 0x66, 0x6f, 0x6f], [0x01, 0x00, 0x00, 0xff])]"

text \<open>A section of two pages whose root, page 1, is a leaf with the first two of these
  records; its bytes are those of page 2 above.\<close>

definition leaf_sec :: bytes where
  "leaf_sec =
    [0x00, 0x00, 0x00, 0x00, 0x40, 0x00, 0x01, 0x00, 0x00, 0x00, 0x02, 0x00, 0x00, 0x00, 0x02, 0x00,
     0x00, 0x00, 0x00, 0x42, 0x2d, 0x74, 0x72, 0x65, 0x65, 0x20, 0x76, 0x20, 0x31, 0x2e, 0x36, 0x20,
     0x28, 0x43, 0x29, 0x20, 0x50, 0x6f, 0x6c, 0x20, 0x31, 0x39, 0x39, 0x30, 0x00, 0x00, 0x00, 0x00,
     0x00, 0x00, 0x00, 0x00, 0x00, 0x00, 0x00, 0x00, 0x00, 0x00, 0x00, 0x00, 0x00, 0x00, 0x00, 0x00,
     0x00, 0x00, 0x00, 0x00, 0x02, 0x00, 0x00, 0x00, 0x00, 0x00, 0x18, 0x00, 0x09, 0x00, 0x00, 0x00,
     0x2b, 0x00, 0x00, 0x00, 0x00, 0x00, 0x33, 0x00, 0x00, 0x0a, 0x00, 0x2e, 0xff, 0x00, 0x00, 0x01,
     0x53, 0x00, 0x00, 0x00, 0x00, 0x04, 0x00, 0x2a, 0x00, 0x00, 0x00, 0x00, 0x01, 0x00, 0x01, 0x02,
     0x00, 0x41, 0x42, 0x00, 0x00, 0x00, 0x00, 0x00, 0x00, 0x00, 0x00, 0x00, 0x00, 0x00, 0x00, 0x00]"

definition leaf_db :: BTree where
  "leaf_db = \<lparr>secdata = leaf_sec, seclen = 128, version = 16, layout_of = Page16, firstfree = 0,
              pagesize = 64, firstindex = 1, reccount = 2, pagecount = 2\<rparr>"

definition leaf_id0 :: ID0File where
  "leaf_id0 = \<lparr>btree = leaf_db, wordsize = 4, fmt = fL, nodebase = 0xFF000000\<rparr>"

text \<open>The empty database: a section of two pages whose root, page 1, is a leaf without
  entries, and whose header gives the record count 0.\<close>

definition empty_sec :: bytes where
  "empty_sec =
    [0x00, 0x00, 0x00, 0x00, 0x40, 0x00, 0x01, 0x00, 0x00, 0x00, 0x00, 0x00, 0x00, 0x00, 0x02, 0x00,
     0x00, 0x00, 0x00, 0x42, 0x2d, 0x74, 0x72, 0x65, 0x65, 0x20, 0x76, 0x20, 0x31, 0x2e, 0x36, 0x20,
     0x28, 0x43, 0x29, 0x20, 0x50, 0x6f, 0x6c, 0x20, 0x31, 0x39, 0x39, 0x30, 0x00, 0x00, 0x00, 0x00,
     0x00, 0x00, 0x00, 0x00, 0x00, 0x00, 0x00, 0x00, 0x00, 0x00, 0x00, 0x00, 0x00, 0x00, 0x00, 0x00,
     0x00, 0x00, 0x00, 0x00, 0x00, 0x00, 0x00, 0x00, 0x00, 0x00, 0x0c, 0x00, 0x00, 0x00, 0x00, 0x00,
     0x00, 0x00, 0x00, 0x00, 0x00, 0x00, 0x00, 0x00, 0x00, 0x00, 0x00, 0x00, 0x00, 0x00, 0x00, 0x00,
     0x00, 0x00, 0x00, 0x00, 0x00, 0x00, 0x00, 0x00, 0x00, 0x00, 0x00, 0x00, 0x00, 0x00, 0x00, 0x00,
     0x00, 0x00, 0x00, 0x00, 0x00, 0x00, 0x00, 0x00, 0x00, 0x00, 0x00, 0x00, 0x00, 0x00, 0x00, 0x00]"

definition empty_db :: BTree where
  "empty_db = \<lparr>secdata = empty_sec, seclen = 128, version = 16, layout_of = Page16, firstfree = 0,
               pagesize = 64, firstindex = 1, reccount = 0, pagecount = 2\<rparr>"

definition empty_leaf :: BasePage where
  "empty_leaf = \<lparr>preceeding = 0, count = 0, index = [], page_unknown = 0, freeptr = 12\<rparr>"

lemma le_nat_1: "le_nat [a] = unat a"
  by simp

lemma le_nat_2': "le_nat [a, b] = unat a + 256 * unat b"
  by simp

lemma le_nat_4': "le_nat [a, b, c, d] = unat a + 256 * unat b + 65536 * unat c + 16777216 * unat d"
  by simp

lemmas decode_simps = BasePage_init_def entsize_of_def entfmt_of_def unpack_from_def calcsize_def
  IndexEntry_init_def LeafEntry_init_def leaf_slot_def BaseIndexEntry_init_def Let_def upt_conv_Cons

lemma ex_BTree_init: "BTree_init ex_sec 256 = Inr ex_db"
  by (simp add: BTree_init_def ex_sec_def ex_db_def startswith_def ascii_def unpack_from_def calcsize_def)

lemma ex_ID0File_init: "ID0File_init (ascii ''IDA1'') ex_sec 256 = Inr ex_id0"
  by (simp add: ID0File_init_def ex_BTree_init ex_id0_def ascii_def)

lemma ex_readpage_1: "readpage ex_db (Suc 0) = Inr ex_root"
  by (simp add: readpage_def ex_db_def ex_sec_def ex_root_def decode_simps)

lemma ex_readpage_2: "readpage ex_db 2 = Inr ex_leaf2"
  by (simp add: readpage_def ex_db_def ex_sec_def ex_leaf2_def decode_simps)

lemma ex_readpage_3: "readpage ex_db 3 = Inr ex_leaf3"
  by (simp add: readpage_def ex_db_def ex_sec_def ex_leaf3_def decode_simps)

lemma ex_firstindex: "firstindex ex_db = Suc 0"
  by (simp add: ex_db_def)

lemma ex_shape:
  "isindex ex_root" "\<not> isleaf ex_root" "isleaf ex_leaf2" "isleaf ex_leaf3"
  "length (index ex_root) = 1" "length (index ex_leaf2) = 2" "length (index ex_leaf3) = 2"
  by (simp_all add: isindex_def isleaf_def ex_root_def ex_leaf2_def ex_leaf3_def)

lemma ex_readchild:
  "readchild ex_db ex_root (-1) = Inr ex_leaf2"
  "readchild ex_db ex_root 0 = Inr ex_leaf3"
proof -
  have "getpage ex_root (-1) = Inr 2" by (simp add: getpage_def ex_root_def)
  then show "readchild ex_db ex_root (-1) = Inr ex_leaf2"
    by (simp add: readchild_def ex_readpage_2)
  have "getpage ex_root 0 = Inr 3" by (simp add: getpage_def py_nth_def ex_root_def)
  then show "readchild ex_db ex_root 0 = Inr ex_leaf3"
    by (simp add: readchild_def ex_readpage_3)
qed

lemma ex_wf_tree: "wf_tree ex_db (Suc 0)"
proof -
  have l2: "wf_page ex_db 0 ex_leaf2" and l3: "wf_page ex_db 0 ex_leaf3"
    by (simp_all add: isleaf_def ex_leaf2_def ex_leaf3_def)
  have "wf_page ex_db (Suc 0) ex_root"
    using ex_shape l2 l3 by (simp add: child_ok_def ex_readchild)
  then show ?thesis by (simp add: wf_tree_def ex_firstindex ex_readpage_1)
qed

lemma ex_tree_positions: "tree_positions ex_db (Suc 0) = ex_positions"
proof -
  have "positions ex_db (Suc 0) ex_root [] = ex_positions"
    using ex_shape
    by (simp add: below_def ex_readchild leaf_positions_def ex_positions_def upt_conv_Cons)
  then show ?thesis by (simp add: tree_positions_def ex_firstindex ex_readpage_1)
qed

lemma ex_tree_records: "tree_records ex_db (Suc 0) = ex_records"
  by (simp add: tree_records_def ex_tree_positions ex_positions_def ex_records_def
      pos_key_def pos_val_def pos_entry_def ex_root_def ex_leaf2_def ex_leaf3_def)

lemma ex_tree_keys: "tree_keys ex_db (Suc 0) = map fst ex_records"
proof -
  have "tree_keys ex_db (Suc 0) = map fst (tree_records ex_db (Suc 0))"
    by (simp add: tree_keys_def tree_records_def comp_def)
  then show ?thesis by (simp add: ex_tree_records)
qed

lemma ex_search_tree: "search_tree ex_db (Suc 0)"
  by (simp add: search_tree_def ex_wf_tree ex_tree_keys ex_records_def)

lemma ex_id0_fields:
  "btree ex_id0 = ex_db" "wordsize ex_id0 = 4" "fmt ex_id0 = fL"
  by (simp_all add: ex_id0_def)

subsection \<open>The single leaf\<close>

lemma leaf_BTree_init: "BTree_init leaf_sec 128 = Inr leaf_db"
  by (simp add: BTree_init_def leaf_sec_def leaf_db_def startswith_def ascii_def unpack_from_def calcsize_def)

lemma leaf_readpage_1: "readpage leaf_db (Suc 0) = Inr ex_leaf2"
  by (simp add: readpage_def leaf_db_def leaf_sec_def ex_leaf2_def decode_simps)

lemma leaf_firstindex: "firstindex leaf_db = Suc 0"
  by (simp add: leaf_db_def)

lemma leaf_wf_tree: "wf_tree leaf_db 0"
  by (simp add: wf_tree_def leaf_firstindex leaf_readpage_1 isleaf_def ex_leaf2_def)

lemma leaf_tree_positions: "tree_positions leaf_db 0 = [[(ex_leaf2, 0)], [(ex_leaf2, 1)]]"
  using ex_shape
  by (simp add: tree_positions_def leaf_firstindex leaf_readpage_1 leaf_positions_def upt_conv_Cons)

lemma leaf_tree_records: "tree_records leaf_db 0 = take 2 ex_records"
  by (simp add: tree_records_def leaf_tree_positions ex_records_def
      pos_key_def pos_val_def pos_entry_def ex_leaf2_def)

lemma leaf_tree_keys: "tree_keys leaf_db 0 = map fst (take 2 ex_records)"
proof -
  have "tree_keys leaf_db 0 = map fst (tree_records leaf_db 0)"
    by (simp add: tree_keys_def tree_records_def comp_def)
  then show ?thesis by (simp add: leaf_tree_records)
qed

lemma leaf_search_tree: "search_tree leaf_db 0"
  by (simp add: search_tree_def leaf_wf_tree leaf_tree_keys ex_records_def)

subsection \<open>The empty database\<close>

lemma empty_BTree_init: "BTree_init empty_sec 128 = Inr empty_db"
  by (simp add: BTree_init_def empty_sec_def empty_db_def startswith_def ascii_def unpack_from_def calcsize_def)

lemma empty_readpage_1: "readpage empty_db (Suc 0) = Inr empty_leaf"
  by (simp add: readpage_def empty_db_def empty_sec_def empty_leaf_def decode_simps)

lemma empty_firstindex: "firstindex empty_db = Suc 0"
  by (simp add: empty_db_def)

lemma empty_page_find: "page_find empty_leaf k = (Gt, 0)"
proof -
  have "bs_loop [] k 0 0 = 0" by (subst bs_loop.simps) simp
  then show ?thesis
    by (simp add: page_find_def binary_search_def empty_leaf_def isindex_def)
qed

lemma empty_find_descend: "find_descend empty_db k empty_leaf [] = Some (Inr (Gt, [(empty_leaf, 0)]))"
  by (subst find_descend.simps) (simp add: empty_page_find)

section \<open>The order of the keys around an index entry\<close>

lemma ex_subtree_keys:
  "subtree_keys ex_db 0 ex_leaf2 =
     [[0x2e, 0xff, 0x00, 0x00, 0x01, 0x53, 0x00, 0x00, 0x00, 0x00],
      [0x2e, 0xff, 0x00, 0x00, 0x01, 0x53, 0x00, 0x00, 0x00, 0x01]]"
  "subtree_keys ex_db 0 ex_leaf3 =
     [[0x2e, 0xff, 0x00, 0x00, 0x01, 0x54, 0x00, 0x00, 0x00, 0x00], [0x4e, 0x66, 0x6f, 0x6f]]"
  using ex_shape
  by (simp_all add: subtree_keys_def leaf_positions_def upt_conv_Cons pos_key_def pos_entry_def
      ex_leaf2_def ex_leaf3_def)

lemma ex_root_key:
  "key (index ex_root ! 0) = [0x2e, 0xff, 0x00, 0x00, 0x01, 0x53, 0x00, 0x00, 0x00, 0x02]"
  by (simp add: ex_root_def)

lemma ex_find_eq:
  "BTree_find ex_db Eq [0x2e, 0xff, 0x00, 0x00, 0x01, 0x54, 0x00, 0x00, 0x00, 0x00]
     = Some (Inr (Some [(ex_leaf3, 0), (ex_root, 0)]))"
  by (simp add: BTree_find_spec[OF ex_search_tree] ex_tree_positions find_spec_def ex_positions_def
      pos_key_def pos_entry_def ex_root_def ex_leaf2_def ex_leaf3_def)

lemma ex_full_scan: "full_scan ex_db = Some (Inr ex_records)"
  by (simp add: full_scan_search_tree[OF ex_search_tree] ex_tree_records)

lemma ex_subpages: "(Suc 0, ex_root) \<in> set (subpages ex_db (Suc 0) ex_root)"
  by simp

text \<open>
  Claim C1, as the code has it.  In a tree that is well-formed and whose keys ascend in
  the order of the tree, for every index page \<open>pg\<close> of the tree: the page of every
  entry can be read, and every key stored in it and below it is greater than the key of
  the entry and less than the key of the next entry of \<open>pg\<close>, if there is one; the
  preceding page can be read, and every key in it and below it is less than the key of
  every entry of \<open>pg\<close>.  The key of an index entry is a record of its own and the
  strict lower bound of the page of the entry.
\<close>

theorem separator_order:
  assumes "search_tree db h" and "readpage db (firstindex db) = Inr root"
    and "(Suc h', pg) \<in> set (subpages db h root)" and "\<not> isleaf pg"
  shows "(\<forall>i < length (index pg). \<exists>c. readchild db pg (int i) = Inr c
            \<and> (\<forall>k'\<in>set (subtree_keys db h' c). key (index pg ! i) < k'
                  \<and> (Suc i < length (index pg) \<longrightarrow> k' < key (index pg ! Suc i))))
       \<and> (\<exists>c. readchild db pg (-1) = Inr c
            \<and> (\<forall>k'\<in>set (subtree_keys db h' c). \<forall>i < length (index pg). k' < key (index pg ! i)))"
proof -
  from assms(1,2) have wfr: "wf_page db h root"
    and sor: "sorted_wrt (<) (subtree_keys db h root)"
    by (simp_all add: search_tree_def wf_tree_def tree_keys_def tree_positions_def subtree_keys_def)
  from subpages_order[OF wfr sor assms(3,4)]
  have wfp: "wf_page db (Suc h') pg"
    and sop: "sorted_wrt (<) (map pos_key (positions db (Suc h') pg []))"
    by (simp_all add: subtree_keys_def)
  note ord = index_page_order[OF wfp assms(4) sop]
  have "\<exists>c. readchild db pg (int i) = Inr c
            \<and> (\<forall>k'\<in>set (subtree_keys db h' c). key (index pg ! i) < k'
                  \<and> (Suc i < length (index pg) \<longrightarrow> k' < key (index pg ! Suc i)))"
    if i: "i < length (index pg)" for i
  proof -
    from wf_page_child[OF wfp assms(4), of "int i"] i
    obtain c where c: "readchild db pg (int i) = Inr c" by auto
    with ord i show ?thesis by blast
  qed
  moreover have "\<exists>c. readchild db pg (-1) = Inr c
            \<and> (\<forall>k'\<in>set (subtree_keys db h' c). \<forall>i < length (index pg). k' < key (index pg ! i))"
  proof -
    from wf_page_child[OF wfp assms(4), of "-1"]
    obtain c where c: "readchild db pg (-1) = Inr c" by auto
    with ord show ?thesis by blast
  qed
  ultimately show ?thesis by blast
qed

text \<open>In the example database the entry of the root has the key
  \<open>'.' + 0xFF000001 + 'S' + 2\<close>; the keys of its page, leaf 3, are greater and those of
  the preceding page, leaf 2, are less.\<close>

theorem separator_order_witness:
  "search_tree ex_db 1 \<and> readpage ex_db (firstindex ex_db) = Inr ex_root
   \<and> (Suc 0, ex_root) \<in> set (subpages ex_db 1 ex_root) \<and> \<not> isleaf ex_root
   \<and> readchild ex_db ex_root 0 = Inr ex_leaf3
   \<and> list_all (\<lambda>k'. key (index ex_root ! 0) < k') (subtree_keys ex_db 0 ex_leaf3)
   \<and> readchild ex_db ex_root (-1) = Inr ex_leaf2
   \<and> list_all (\<lambda>k'. k' < key (index ex_root ! 0)) (subtree_keys ex_db 0 ex_leaf2)"
proof -
  have rp: "readpage ex_db (firstindex ex_db) = Inr ex_root"
    by (simp add: ex_firstindex ex_readpage_1)
  note ord = separator_order[OF ex_search_tree rp ex_subpages ex_shape(2)]
  from ord have "\<exists>c. readchild ex_db ex_root (int 0) = Inr c
            \<and> (\<forall>k'\<in>set (subtree_keys ex_db 0 c). key (index ex_root ! 0) < k'
                  \<and> (Suc 0 < length (index ex_root) \<longrightarrow> k' < key (index ex_root ! Suc 0)))"
    using ex_shape(5) by simp
  then have a: "list_all (\<lambda>k'. key (index ex_root ! 0) < k') (subtree_keys ex_db 0 ex_leaf3)"
    by (auto simp: ex_readchild list_all_iff)
  from ord have "\<exists>c. readchild ex_db ex_root (-1) = Inr c
            \<and> (\<forall>k'\<in>set (subtree_keys ex_db 0 c). \<forall>i < length (index ex_root). k' < key (index ex_root ! i))"
    by simp
  then have b: "list_all (\<lambda>k'. k' < key (index ex_root ! 0)) (subtree_keys ex_db 0 ex_leaf2)"
    using ex_shape(5) by (auto simp: ex_readchild list_all_iff)
  show ?thesis
    using ex_search_tree rp ex_shape(2) ex_readchild a b by simp
qed

text \<open>Against the claim as it is stated: the example database is a search tree, every
  record of which \<open>find\<close> and a full scan reach, and the page of the entry of its root
  holds keys greater than the key of the entry, the preceding page keys less than it.\<close>

theorem separator_counterexample:
  "search_tree ex_db 1 \<and> readpage ex_db (firstindex ex_db) = Inr ex_root
   \<and> key (index ex_root ! 0) = [0x2e, 0xff, 0x00, 0x00, 0x01, 0x53, 0x00, 0x00, 0x00, 0x02]
   \<and> readchild ex_db ex_root 0 = Inr ex_leaf3
   \<and> subtree_keys ex_db 0 ex_leaf3 =
        [[0x2e, 0xff, 0x00, 0x00, 0x01, 0x54, 0x00, 0x00, 0x00, 0x00], [0x4e, 0x66, 0x6f, 0x6f]]
   \<and> list_ex (\<lambda>k'. \<not> k' \<le> key (index ex_root ! 0)) (subtree_keys ex_db 0 ex_leaf3)
   \<and> readchild ex_db ex_root (-1) = Inr ex_leaf2
   \<and> subtree_keys ex_db 0 ex_leaf2 =
        [[0x2e, 0xff, 0x00, 0x00, 0x01, 0x53, 0x00, 0x00, 0x00, 0x00],
         [0x2e, 0xff, 0x00, 0x00, 0x01, 0x53, 0x00, 0x00, 0x00, 0x01]]
   \<and> list_ex (\<lambda>k'. \<not> key (index ex_root ! 0) < k') (subtree_keys ex_db 0 ex_leaf2)
   \<and> BTree_find ex_db Eq [0x2e, 0xff, 0x00, 0x00, 0x01, 0x54, 0x00, 0x00, 0x00, 0x00]
        = Some (Inr (Some [(ex_leaf3, 0), (ex_root, 0)]))
   \<and> full_scan ex_db = Some (Inr ex_records)"
proof -
  have rp: "readpage ex_db (firstindex ex_db) = Inr ex_root"
    by (simp add: ex_firstindex ex_readpage_1)
  have a: "list_ex (\<lambda>k'. \<not> k' \<le> key (index ex_root ! 0)) (subtree_keys ex_db 0 ex_leaf3)"
    by (simp add: ex_subtree_keys ex_root_key)
  have b: "list_ex (\<lambda>k'. \<not> key (index ex_root ! 0) < k') (subtree_keys ex_db 0 ex_leaf2)"
    by (simp add: ex_subtree_keys ex_root_key)
  show ?thesis
    using ex_search_tree rp ex_root_key ex_readchild ex_subtree_keys a b ex_find_eq ex_full_scan
    by simp
qed


section \<open>\<open>find\<close> and the full scan on the empty database\<close>

lemma empty_cursor:
  "\<not> eof [(empty_leaf, 0)]" "Cursor_getkey [(empty_leaf, 0)] = Inl IndexError"
  "Cursor_getval [(empty_leaf, 0)] = Inl IndexError"
  by (simp_all add: eof_def Cursor_getkey_def Cursor_getval_def getkey_def getval_def py_nth_def
      empty_leaf_def)

lemma empty_find:
  "BTree_find empty_db r k =
     (case find_finish empty_db r Gt [(empty_leaf, 0)] of
        None \<Rightarrow> None | Some (Inl err) \<Rightarrow> Some (Inl err) | Some (Inr c) \<Rightarrow> Some (Inr c))"
  by (simp add: BTree_find_def empty_firstindex empty_readpage_1 empty_find_descend
      split: option.splits sum.splits)

lemma empty_moves:
  "Cursor_prev empty_db [(empty_leaf, 0)] = Some (Inr [])"
  "Cursor_next empty_db [(empty_leaf, 0)] = Some (Inr [])"
  by (simp_all add: Cursor_prev_def Cursor_next_def isleaf_def empty_leaf_def)

text \<open>
  Claim C2, on the empty database, whose root is a leaf without entries and whose header
  gives the record count 0.  For every key \<open>k\<close>, \<open>find('eq', k)\<close> returns \<open>None\<close> and
  \<open>find('lt', k)\<close> and \<open>find('le', k)\<close> return a cursor at \<open>eof\<close>; but \<open>find('ge', k)\<close> and
  \<open>find('gt', k)\<close> return the cursor with the stack \<open>[(leaf, 0)]\<close>, which is not at
  \<open>eof\<close> although there is no record, and whose \<open>getkey()\<close> and \<open>getval()\<close> raise
  \<open>IndexError\<close>.
\<close>

theorem find_empty_database:
  "BTree_init empty_sec 128 = Inr empty_db \<and> reccount empty_db = 0
   \<and> readpage empty_db (firstindex empty_db) = Inr empty_leaf
   \<and> isleaf empty_leaf \<and> index empty_leaf = []
   \<and> BTree_find empty_db Eq k = Some (Inr None)
   \<and> BTree_find empty_db Lt k = Some (Inr (Some []))
   \<and> BTree_find empty_db Le k = Some (Inr (Some []))
   \<and> BTree_find empty_db Ge k = Some (Inr (Some [(empty_leaf, 0)]))
   \<and> BTree_find empty_db Gt k = Some (Inr (Some [(empty_leaf, 0)]))
   \<and> eof [] \<and> \<not> eof [(empty_leaf, 0)]
   \<and> Cursor_getkey [(empty_leaf, 0)] = Inl IndexError
   \<and> Cursor_getval [(empty_leaf, 0)] = Inl IndexError"
proof -
  have rp: "readpage empty_db (firstindex empty_db) = Inr empty_leaf"
    by (simp add: empty_firstindex empty_readpage_1)
  have hdr: "reccount empty_db = 0" "isleaf empty_leaf" "index empty_leaf = []"
    by (simp_all add: empty_db_def isleaf_def empty_leaf_def)
  have f: "BTree_find empty_db Eq k = Some (Inr None)"
    "BTree_find empty_db Lt k = Some (Inr (Some []))"
    "BTree_find empty_db Le k = Some (Inr (Some []))"
    "BTree_find empty_db Ge k = Some (Inr (Some [(empty_leaf, 0)]))"
    "BTree_find empty_db Gt k = Some (Inr (Some [(empty_leaf, 0)]))"
    by (simp_all add: empty_find find_finish_def empty_moves)
  show ?thesis
    using empty_BTree_init rp hdr f empty_cursor by (simp add: eof_def)
qed

text \<open>
  Claim C3, on the empty database.  The header gives the record count 0, but the cursor
  that \<open>find('ge', b'')\<close> returns is not at \<open>eof\<close>: the scan visits the position
  \<open>[(leaf, 0)]\<close>, where there is no record, so that reading the key raises \<open>IndexError\<close>,
  and only the \<open>next()\<close> from there reaches \<open>eof\<close>.
\<close>

theorem full_scan_empty_database:
  "BTree_init empty_sec 128 = Inr empty_db \<and> reccount empty_db = 0
   \<and> BTree_find empty_db Ge [] = Some (Inr (Some [(empty_leaf, 0)]))
   \<and> \<not> eof [(empty_leaf, 0)]
   \<and> Cursor_next empty_db [(empty_leaf, 0)] = Some (Inr [])
   \<and> full_scan empty_db = Some (Inl IndexError)"
proof -
  have f: "BTree_find empty_db Ge [] = Some (Inr (Some [(empty_leaf, 0)]))"
    by (simp add: empty_find find_finish_def)
  have "scan (Cursor_next empty_db) [(empty_leaf, 0)] [] = Some (Inl IndexError)"
    by (subst scan.simps) (simp add: empty_cursor)
  then have s: "full_scan empty_db = Some (Inl IndexError)"
    by (simp add: full_scan_def f)
  show ?thesis
    using empty_BTree_init f empty_cursor(1) empty_moves(2) s by (simp add: empty_db_def)
qed

section \<open>Round trips of a cursor\<close>

lemma ex_chain_next: "chain (Cursor_next ex_db) ex_positions []"
  using tree_chain_next[OF ex_wf_tree] by (simp add: ex_tree_positions)

lemma ex_chain_prev: "chain (Cursor_prev ex_db) (rev ex_positions) []"
  using tree_chain_prev[OF ex_wf_tree] by (simp add: ex_tree_positions)

lemma Cursor_move_eof:
  "Cursor_next db [] = Some (Inl IndexError)" "Cursor_prev db [] = Some (Inl IndexError)"
  by (simp_all add: Cursor_next_def Cursor_prev_def)

text \<open>
  Claim C5, as the code has it.  In a well-formed tree, for a cursor \<open>c\<close> at a record:
  unless the record is the last one, \<open>next()\<close> takes \<open>c\<close> to a cursor at a record from
  which \<open>prev()\<close> returns to \<open>c\<close>, with the whole stack and so the top frame as it was;
  unless the record is the first one, \<open>prev()\<close> takes \<open>c\<close> to a cursor at a record from
  which \<open>next()\<close> returns to \<open>c\<close>.  At the last record \<open>next()\<close> and at the first record
  \<open>prev()\<close> give the cursor at \<open>eof\<close>, the empty stack, on which \<open>prev()\<close> and \<open>next()\<close>
  raise \<open>IndexError\<close>.
\<close>

theorem cursor_round_trip:
  assumes "wf_tree db h" and "c \<in> set (tree_positions db h)"
  shows "(c \<noteq> last (tree_positions db h) \<longrightarrow>
            (\<exists>c'. c' \<in> set (tree_positions db h)
                 \<and> Cursor_next db c = Some (Inr c') \<and> Cursor_prev db c' = Some (Inr c)))
       \<and> (c \<noteq> hd (tree_positions db h) \<longrightarrow>
            (\<exists>c'. c' \<in> set (tree_positions db h)
                 \<and> Cursor_prev db c = Some (Inr c') \<and> Cursor_next db c' = Some (Inr c)))
       \<and> (c = last (tree_positions db h) \<longrightarrow>
            Cursor_next db c = Some (Inr []) \<and> Cursor_prev db [] = Some (Inl IndexError))
       \<and> (c = hd (tree_positions db h) \<longrightarrow>
            Cursor_prev db c = Some (Inr []) \<and> Cursor_next db [] = Some (Inl IndexError))"
proof -
  have a: "\<exists>c'. c' \<in> set (tree_positions db h)
                 \<and> Cursor_next db c = Some (Inr c') \<and> Cursor_prev db c' = Some (Inr c)"
    if "c \<noteq> last (tree_positions db h)"
  proof -
    from split_not_last[OF assms(2) that] obtain A c' B
      where sp: "tree_positions db h = A @ c # c' # B" by blast
    from next_prev_adjacent[OF assms(1) sp] sp show ?thesis by auto
  qed
  have b: "\<exists>c'. c' \<in> set (tree_positions db h)
                 \<and> Cursor_prev db c = Some (Inr c') \<and> Cursor_next db c' = Some (Inr c)"
    if "c \<noteq> hd (tree_positions db h)"
  proof -
    from split_not_first[OF assms(2) that] obtain A c' B
      where sp: "tree_positions db h = A @ c' # c # B" by blast
    from next_prev_adjacent[OF assms(1) sp] sp show ?thesis by auto
  qed
  show ?thesis
    using a b Cursor_next_last[OF assms(1)] Cursor_prev_first[OF assms(1)]
    by (simp add: Cursor_move_eof)
qed

text \<open>In the example database, from the second record: \<open>next()\<close> goes up to the entry of
  the root and \<open>prev()\<close> comes back; \<open>prev()\<close> goes to the first record and \<open>next()\<close>
  comes back.\<close>

theorem cursor_round_trip_witness:
  "wf_tree ex_db 1 \<and> tree_positions ex_db 1 = ex_positions
   \<and> Cursor_next ex_db [(ex_leaf2, 1), (ex_root, -1)] = Some (Inr [(ex_root, 0)])
   \<and> Cursor_prev ex_db [(ex_root, 0)] = Some (Inr [(ex_leaf2, 1), (ex_root, -1)])
   \<and> Cursor_prev ex_db [(ex_leaf2, 1), (ex_root, -1)] = Some (Inr [(ex_leaf2, 0), (ex_root, -1)])
   \<and> Cursor_next ex_db [(ex_leaf2, 0), (ex_root, -1)] = Some (Inr [(ex_leaf2, 1), (ex_root, -1)])"
proof -
  let ?c = "[(ex_leaf2, 1), (ex_root, -1)] :: cursor"
  have mem: "?c \<in> set (tree_positions ex_db (Suc 0))"
    by (simp add: ex_tree_positions ex_positions_def)
  have ne: "?c \<noteq> last (tree_positions ex_db (Suc 0))" "?c \<noteq> hd (tree_positions ex_db (Suc 0))"
    by (simp_all add: ex_tree_positions ex_positions_def)
  have n: "Cursor_next ex_db ?c = Some (Inr [(ex_root, 0)])"
    using ex_shape by (simp add: Cursor_next_def)
  have p: "Cursor_prev ex_db ?c = Some (Inr [(ex_leaf2, 0), (ex_root, -1)])"
    using ex_shape by (simp add: Cursor_prev_def)
  note rt = cursor_round_trip[OF ex_wf_tree mem]
  from rt ne(1) obtain c' where "Cursor_next ex_db ?c = Some (Inr c')"
    "Cursor_prev ex_db c' = Some (Inr ?c)" by blast
  with n have rt1: "Cursor_prev ex_db [(ex_root, 0)] = Some (Inr ?c)" by simp
  from rt ne(2) obtain c'' where "Cursor_prev ex_db ?c = Some (Inr c'')"
    "Cursor_next ex_db c'' = Some (Inr ?c)" by blast
  with p have rt2: "Cursor_next ex_db [(ex_leaf2, 0), (ex_root, -1)] = Some (Inr ?c)" by simp
  show ?thesis
    using ex_wf_tree ex_tree_positions n p rt1 rt2 by simp
qed

text \<open>Against the claim as it is stated: at the last record of the example database,
  the name \<open>Nfoo\<close>, \<open>next()\<close> leaves the empty stack and \<open>prev()\<close> raises; at the first
  record \<open>prev()\<close> leaves the empty stack and \<open>next()\<close> raises.\<close>

theorem cursor_round_trip_counterexample:
  "tree_positions ex_db 1 = ex_positions
   \<and> last ex_positions = [(ex_leaf3, 1), (ex_root, 0)]
   \<and> Cursor_getkey [(ex_leaf3, 1), (ex_root, 0)] = Inr (ascii ''Nfoo'')
   \<and> Cursor_next ex_db [(ex_leaf3, 1), (ex_root, 0)] = Some (Inr [])
   \<and> Cursor_prev ex_db [] = Some (Inl IndexError)
   \<and> hd ex_positions = [(ex_leaf2, 0), (ex_root, -1)]
   \<and> Cursor_getkey [(ex_leaf2, 0), (ex_root, -1)]
        = Inr [0x2e, 0xff, 0x00, 0x00, 0x01, 0x53, 0x00, 0x00, 0x00, 0x00]
   \<and> Cursor_prev ex_db [(ex_leaf2, 0), (ex_root, -1)] = Some (Inr [])
   \<and> Cursor_next ex_db [] = Some (Inl IndexError)"
proof -
  have n: "Cursor_next ex_db [(ex_leaf3, 1), (ex_root, 0)] = Some (Inr [])"
    using ex_shape by (simp add: Cursor_next_def)
  have p: "Cursor_prev ex_db [(ex_leaf2, 0), (ex_root, -1)] = Some (Inr [])"
    using ex_shape by (simp add: Cursor_prev_def)
  have k: "Cursor_getkey [(ex_leaf3, 1), (ex_root, 0)] = Inr (ascii ''Nfoo'')"
    "Cursor_getkey [(ex_leaf2, 0), (ex_root, -1)]
        = Inr [0x2e, 0xff, 0x00, 0x00, 0x01, 0x53, 0x00, 0x00, 0x00, 0x00]"
    by (simp_all add: Cursor_getkey_def getkey_def py_nth_def ex_leaf3_def ex_leaf2_def ascii_def)
  have e: "last ex_positions = [(ex_leaf3, 1), (ex_root, 0)]"
    "hd ex_positions = [(ex_leaf2, 0), (ex_root, -1)]"
    by (simp_all add: ex_positions_def)
  show ?thesis
    using ex_tree_positions n p k e by (simp add: Cursor_move_eof)
qed

section \<open>The typed overlay: \<open>blob\<close>, \<open>nodeByName\<close> and \<open>int\<close>\<close>

lemma be_pack_4: "be_pack 4 v =
    [of_nat (v div 256 div 256 div 256 mod 256), of_nat (v div 256 div 256 mod 256),
     of_nat (v div 256 mod 256), of_nat (v mod 256)]"
proof -
  have four: "(4::nat) = Suc (Suc (Suc (Suc 0)))" by simp
  show ?thesis unfolding be_pack_def four by simp
qed

lemma ex_makekey:
  "makekey ex_id0 [PInt 0xFF0000FF] = Inr [0x2e, 0xff, 0x00, 0x00, 0xff]"
  "makekey ex_id0 [PInt 0xFF000001, PStr (ascii ''S'')] = Inr [0x2e, 0xff, 0x00, 0x00, 0x01, 0x53]"
  "makekey ex_id0 [PInt 0xFF000001, PStr (ascii ''S''), PInt 0]
     = Inr [0x2e, 0xff, 0x00, 0x00, 0x01, 0x53, 0x00, 0x00, 0x00, 0x00]"
  "makekey ex_id0 [PInt 0xFF000001, PStr (ascii ''S''), PInt 2]
     = Inr [0x2e, 0xff, 0x00, 0x00, 0x01, 0x53, 0x00, 0x00, 0x00, 0x02]"
  by (simp_all add: makekey_def pack_unsigned_def pack_signed_def pack_s_def ex_id0_def
      be_pack_4 ascii_def)

lemma leaf_makekey:
  "makekey leaf_id0 [PInt 0xFF000001, PStr (ascii ''S'')] = Inr [0x2e, 0xff, 0x00, 0x00, 0x01, 0x53]"
  by (simp add: makekey_def pack_unsigned_def pack_s_def leaf_id0_def be_pack_4 ascii_def)

lemma ex_nextkey:
  "nextkey [0x2e, 0xff, 0x00, 0x00, 0xff] = Inl StructError"
  "nextkey [0x2e, 0xff, 0x00, 0x00, 0x01, 0x53] = Inr [0x2e, 0xff, 0x00, 0x00, 0x01, 0x54]"
  by (simp_all add: nextkey_def)

lemma makekey_nonempty: "makekey self args = Inr k \<Longrightarrow> k \<noteq> []"
  by (auto simp: makekey_def split: list.splits sum.splits pyarg.splits)

lemma nextkey_cases:
  assumes "k \<noteq> []"
  shows "nextkey k = (if last k = 0xFF then Inl StructError else Inr (butlast k @ [last k + 1]))"
proof -
  have "unat (last k) < 256" using unsigned_less[of "last k", where 'a = nat] by simp
  moreover have "(unat (last k) = 255) = (last k = 0xFF)"
    using word_unat_eq_iff[of "last k" "0xFF"] by simp
  ultimately show ?thesis using assms by (auto simp: nextkey_def)
qed

text \<open>
  Claim C6, as the code has it.  On a search tree, for the start key made of the
  arguments: \<open>nextkey\<close> raises \<open>struct.error\<close> when the last byte of the start key is
  \<open>0xFF\<close>, and so does \<open>blob\<close>; otherwise the end key is the start key with its last
  byte incremented, and when the tree holds a record whose key is at least the end key,
  \<open>blob\<close> returns the values of the records with keys in
  \<open>[start_key, next_key(start_key))\<close>, concatenated in the order of their keys.
\<close>

theorem blob_interval:
  assumes "search_tree (btree self) h" and "makekey self args = Inr startkey"
  shows "nextkey startkey =
           (if last startkey = 0xFF then Inl StructError
            else Inr (butlast startkey @ [last startkey + 1]))
       \<and> (last startkey = 0xFF \<longrightarrow> blob self args = Some (Inl StructError))
       \<and> (\<forall>endkey. nextkey startkey = Inr endkey
              \<and> (\<exists>k\<in>set (tree_keys (btree self) h). endkey \<le> k)
            \<longrightarrow> blob self args =
                 Some (Inr (concat (map snd
                   (records_between startkey endkey (tree_records (btree self) h))))))"
proof -
  have nk: "nextkey startkey =
           (if last startkey = 0xFF then Inl StructError
            else Inr (butlast startkey @ [last startkey + 1]))"
    by (rule nextkey_cases[OF makekey_nonempty[OF assms(2)]])
  have ff: "blob self args = Some (Inl StructError)" if "last startkey = 0xFF"
    using that nk by (simp add: blob_def assms(2))
  have iv: "blob self args =
                 Some (Inr (concat (map snd
                   (records_between startkey endkey (tree_records (btree self) h)))))"
    if "nextkey startkey = Inr endkey" "\<exists>k\<in>set (tree_keys (btree self) h). endkey \<le> k"
    for endkey
    using blob_spec[OF assms that(1)] that(2) by simp
  from nk ff iv show ?thesis by blast
qed

text \<open>In the example database \<open>blob(0xFF000001, 'S')\<close> is the concatenation of the values
  of the three records with the keys \<open>'.' + 0xFF000001 + 'S' + 0, 1, 2\<close>.\<close>

theorem blob_interval_witness:
  "search_tree (btree ex_id0) 1
   \<and> makekey ex_id0 [PInt 0xFF000001, PStr (ascii ''S'')] = Inr [0x2e, 0xff, 0x00, 0x00, 0x01, 0x53]
   \<and> nextkey [0x2e, 0xff, 0x00, 0x00, 0x01, 0x53] = Inr [0x2e, 0xff, 0x00, 0x00, 0x01, 0x54]
   \<and> records_between [0x2e, 0xff, 0x00, 0x00, 0x01, 0x53] [0x2e, 0xff, 0x00, 0x00, 0x01, 0x54]
        (tree_records (btree ex_id0) 1) = take 3 ex_records
   \<and> blob ex_id0 [PInt 0xFF000001, PStr (ascii ''S'')]
        = Some (Inr [0x2a, 0x00, 0x00, 0x00, 0x41, 0x42, 0x78, 0x79, 0x7a])"
proof -
  have st: "search_tree (btree ex_id0) (Suc 0)" by (simp add: ex_id0_fields ex_search_tree)
  have rb: "records_between [0x2e, 0xff, 0x00, 0x00, 0x01, 0x53] [0x2e, 0xff, 0x00, 0x00, 0x01, 0x54]
        (tree_records (btree ex_id0) (Suc 0)) = take 3 ex_records"
    by (simp add: ex_id0_fields ex_tree_records records_between_def ex_records_def)
  have ge: "\<exists>k\<in>set (tree_keys (btree ex_id0) (Suc 0)). [0x2e, 0xff, 0x00, 0x00, 0x01, 0x54] \<le> k"
    by (simp add: ex_id0_fields ex_tree_keys ex_records_def)
  from blob_interval[OF st ex_makekey(2)] ex_nextkey(2) ge
  have "blob ex_id0 [PInt 0xFF000001, PStr (ascii ''S'')]
          = Some (Inr (concat (map snd
              (records_between [0x2e, 0xff, 0x00, 0x00, 0x01, 0x53] [0x2e, 0xff, 0x00, 0x00, 0x01, 0x54]
                 (tree_records (btree ex_id0) (Suc 0))))))"
    by blast
  then have "blob ex_id0 [PInt 0xFF000001, PStr (ascii ''S'')]
          = Some (Inr (concat (map snd (take 3 ex_records))))"
    by (simp only: rb)
  then have bl: "blob ex_id0 [PInt 0xFF000001, PStr (ascii ''S'')]
        = Some (Inr [0x2a, 0x00, 0x00, 0x00, 0x41, 0x42, 0x78, 0x79, 0x7a])"
    by (simp add: ex_records_def)
  show ?thesis using st ex_makekey(2) ex_nextkey(2) rb bl by simp
qed

text \<open>Against the claim as it is stated: a start key that ends in \<open>0xFF\<close>, here the key
  of \<open>blob(0xFF0000FF)\<close>, makes \<open>blob\<close> raise \<open>struct.error\<close>, it does not end early.
  And the loop of \<open>blob\<close> has no test for \<open>eof\<close>: in the database of the single leaf no
  record follows the interval of \<open>blob(0xFF000001, 'S')\<close>, and the two records of the
  interval do not come back, \<open>getkey()\<close> raises \<open>IndexError\<close> behind the last record.\<close>

theorem blob_counterexample:
  "makekey ex_id0 [PInt 0xFF0000FF] = Inr [0x2e, 0xff, 0x00, 0x00, 0xff]
   \<and> nextkey [0x2e, 0xff, 0x00, 0x00, 0xff] = Inl StructError
   \<and> blob ex_id0 [PInt 0xFF0000FF] = Some (Inl StructError)
   \<and> search_tree (btree leaf_id0) 0
   \<and> makekey leaf_id0 [PInt 0xFF000001, PStr (ascii ''S'')] = Inr [0x2e, 0xff, 0x00, 0x00, 0x01, 0x53]
   \<and> nextkey [0x2e, 0xff, 0x00, 0x00, 0x01, 0x53] = Inr [0x2e, 0xff, 0x00, 0x00, 0x01, 0x54]
   \<and> records_between [0x2e, 0xff, 0x00, 0x00, 0x01, 0x53] [0x2e, 0xff, 0x00, 0x00, 0x01, 0x54]
        (tree_records (btree leaf_id0) 0) = take 2 ex_records
   \<and> blob leaf_id0 [PInt 0xFF000001, PStr (ascii ''S'')] = Some (Inl IndexError)"
proof -
  have a: "blob ex_id0 [PInt 0xFF0000FF] = Some (Inl StructError)"
    by (simp add: blob_def ex_makekey ex_nextkey)
  have bt: "btree leaf_id0 = leaf_db" by (simp add: leaf_id0_def)
  have st: "search_tree (btree leaf_id0) 0" by (simp add: bt leaf_search_tree)
  have rb: "records_between [0x2e, 0xff, 0x00, 0x00, 0x01, 0x53] [0x2e, 0xff, 0x00, 0x00, 0x01, 0x54]
        (tree_records (btree leaf_id0) 0) = take 2 ex_records"
    by (simp add: bt leaf_tree_records records_between_def ex_records_def)
  have "\<not> (\<exists>k\<in>set (tree_keys (btree leaf_id0) 0). [0x2e, 0xff, 0x00, 0x00, 0x01, 0x54] \<le> k)"
    by (simp add: bt leaf_tree_keys ex_records_def)
  with blob_spec[OF st leaf_makekey ex_nextkey(2)]
  have b: "blob leaf_id0 [PInt 0xFF000001, PStr (ascii ''S'')] = Some (Inl IndexError)"
    by simp
  show ?thesis using ex_makekey(1) ex_nextkey a st leaf_makekey rb b by simp
qed

lemma int_of_names: "ID0File_int self [PStr tag, PStr name] = Some (Inl StructError)"
  by (simp add: ID0File_int_def ID0File_bytes_def makekey_def pack_unsigned_def)

text \<open>
  Claim C9, as the code has it.  On a search tree \<open>nodeByName(name)\<close> looks up the key
  \<open>b'N' + name\<close>, which is not a key that \<open>makekey\<close> builds: it returns \<open>None\<close> when the
  tree has no record with that key, the little-endian integer of the value when the value
  has the 4 or 8 bytes of the word format \<open>fmt\<close>, and raises \<open>struct.error\<close> for a value
  of another length.  \<open>int('N', name)\<close>, with two strings, raises \<open>struct.error\<close> in
  \<open>makekey\<close>, whatever the tree holds.
\<close>

theorem nodeByName_value:
  assumes "search_tree (btree self) h"
  shows "nodeByName self name =
     (case map_of (tree_records (btree self) h) (0x4e # name) of
        None \<Rightarrow> Some (Inr None)
      | Some v \<Rightarrow> if length v = calcsize1 (fmt self) then Some (Inr (Some (le_nat v)))
                  else Some (Inl StructError))
   \<and> ID0File_int self [PStr tag, PStr name] = Some (Inl StructError)"
  using nodeByName_spec[OF assms, of name] int_of_names[of self tag name] by (rule conjI)

text \<open>In the example database the name \<open>foo\<close> has the node \<open>0xFF000001\<close>, and there is no
  name \<open>bar\<close>.\<close>

theorem nodeByName_value_witness:
  "search_tree (btree ex_id0) 1
   \<and> map_of (tree_records (btree ex_id0) 1) (0x4e # ascii ''foo'') = Some [0x01, 0x00, 0x00, 0xff]
   \<and> nodeByName ex_id0 (ascii ''foo'') = Some (Inr (Some 0xFF000001))
   \<and> nodeByName ex_id0 (ascii ''bar'') = Some (Inr None)"
proof -
  have st: "search_tree (btree ex_id0) (Suc 0)" by (simp add: ex_id0_fields ex_search_tree)
  have m: "map_of (tree_records (btree ex_id0) (Suc 0)) (0x4e # ascii ''foo'') = Some [0x01, 0x00, 0x00, 0xff]"
    "map_of (tree_records (btree ex_id0) (Suc 0)) (0x4e # ascii ''bar'') = None"
    by (simp_all add: ex_id0_fields ex_tree_records ex_records_def ascii_def)
  from nodeByName_value[OF st, of "ascii ''foo''"] m(1)
  have a: "nodeByName ex_id0 (ascii ''foo'') = Some (Inr (Some 0xFF000001))"
    by (simp add: ex_id0_fields)
  from nodeByName_value[OF st, of "ascii ''bar''"] m(2)
  have b: "nodeByName ex_id0 (ascii ''bar'') = Some (Inr None)"
    by simp
  show ?thesis using st m(1) a b by simp
qed

text \<open>Against the claim as it is stated: in the example database \<open>nodeByName("foo")\<close>
  returns the node, and \<open>int('N', "foo")\<close> raises \<open>struct.error\<close>.\<close>

theorem nodeByName_counterexample:
  "nodeByName ex_id0 (ascii ''foo'') = Some (Inr (Some 0xFF000001))
   \<and> ID0File_int ex_id0 [PStr (ascii ''N''), PStr (ascii ''foo'')] = Some (Inl StructError)"
proof -
  have st: "search_tree (btree ex_id0) (Suc 0)" by (simp add: ex_id0_fields ex_search_tree)
  have m: "map_of (tree_records (btree ex_id0) (Suc 0)) (0x4e # ascii ''foo'') = Some [0x01, 0x00, 0x00, 0xff]"
    by (simp add: ex_id0_fields ex_tree_records ex_records_def ascii_def)
  from nodeByName_spec[OF st, of "ascii ''foo''"] m
  have a: "nodeByName ex_id0 (ascii ''foo'') = Some (Inr (Some 0xFF000001))"
    by (simp add: ex_id0_fields)
  show ?thesis using a by (simp add: int_of_names)
qed

text \<open>
  Claim C10, as the code has it.  On a search tree, for the key made of the arguments,
  \<open>int\<close> returns \<open>None\<close> when the tree has no record with the key, the little-endian
  unsigned integer of the value when the value has 1, 2, 4 or 8 bytes, and \<open>None\<close> again,
  without an exception, when the value has any other length.
\<close>

theorem int_decoding:
  assumes "search_tree (btree self) h" and "makekey self args = Inr k"
  shows "ID0File_int self args =
     Some (Inr (case map_of (tree_records (btree self) h) k of
                  None \<Rightarrow> None
                | Some v \<Rightarrow> if length v \<in> {1, 2, 4, 8} then Some (le_nat v) else None))"
  by (rule ID0File_int_spec[OF assms])

text \<open>In the example database the value of \<open>(0xFF000001, 'S', 0)\<close> has four bytes and is
  the integer 42.\<close>

theorem int_decoding_witness:
  "search_tree (btree ex_id0) 1
   \<and> makekey ex_id0 [PInt 0xFF000001, PStr (ascii ''S''), PInt 0]
       = Inr [0x2e, 0xff, 0x00, 0x00, 0x01, 0x53, 0x00, 0x00, 0x00, 0x00]
   \<and> map_of (tree_records (btree ex_id0) 1) [0x2e, 0xff, 0x00, 0x00, 0x01, 0x53, 0x00, 0x00, 0x00, 0x00]
       = Some [0x2a, 0x00, 0x00, 0x00]
   \<and> ID0File_int ex_id0 [PInt 0xFF000001, PStr (ascii ''S''), PInt 0] = Some (Inr (Some 42))"
proof -
  have st: "search_tree (btree ex_id0) (Suc 0)" by (simp add: ex_id0_fields ex_search_tree)
  have m: "map_of (tree_records (btree ex_id0) (Suc 0)) [0x2e, 0xff, 0x00, 0x00, 0x01, 0x53, 0x00, 0x00, 0x00, 0x00]
       = Some [0x2a, 0x00, 0x00, 0x00]"
    by (simp add: ex_id0_fields ex_tree_records ex_records_def)
  from int_decoding[OF st ex_makekey(3)] m
  have a: "ID0File_int ex_id0 [PInt 0xFF000001, PStr (ascii ''S''), PInt 0] = Some (Inr (Some 42))"
    by simp
  show ?thesis using st ex_makekey(3) m a by simp
qed

text \<open>Against the claim as it is stated: in the example database the record of
  \<open>(0xFF000001, 'S', 2)\<close> exists and has the value \<open>xyz\<close> of three bytes; \<open>int\<close> returns
  \<open>None\<close> for it and raises nothing.\<close>

theorem int_counterexample:
  "makekey ex_id0 [PInt 0xFF000001, PStr (ascii ''S''), PInt 2]
       = Inr [0x2e, 0xff, 0x00, 0x00, 0x01, 0x53, 0x00, 0x00, 0x00, 0x02]
   \<and> ID0File_bytes ex_id0 [PInt 0xFF000001, PStr (ascii ''S''), PInt 2]
       = Some (Inr (Some [0x78, 0x79, 0x7a]))
   \<and> ID0File_int ex_id0 [PInt 0xFF000001, PStr (ascii ''S''), PInt 2] = Some (Inr None)"
proof -
  have st: "search_tree (btree ex_id0) (Suc 0)" by (simp add: ex_id0_fields ex_search_tree)
  have m: "map_of (tree_records (btree ex_id0) (Suc 0)) [0x2e, 0xff, 0x00, 0x00, 0x01, 0x53, 0x00, 0x00, 0x00, 0x02]
       = Some [0x78, 0x79, 0x7a]"
    by (simp add: ex_id0_fields ex_tree_records ex_records_def)
  from ID0File_bytes_spec[OF st ex_makekey(4)] m
  have a: "ID0File_bytes ex_id0 [PInt 0xFF000001, PStr (ascii ''S''), PInt 2]
       = Some (Inr (Some [0x78, 0x79, 0x7a]))" by simp
  from ID0File_int_spec[OF st ex_makekey(4)] m
  have b: "ID0File_int ex_id0 [PInt 0xFF000001, PStr (ascii ''S''), PInt 2] = Some (Inr None)"
    by simp
  show ?thesis using ex_makekey(4) a b by simp
qed

end
